theory Spec2Isabelle
  imports Main "HOL-Library.Sublist"
begin

section \<open>JavaScript strings and values\<close>

text \<open>
  A JavaScript string is a sequence of UTF-16 code units, and every string operation of
  \<^verbatim>\<open>lib/grammar-checker.js\<close> works on code units. A code unit is modelled by its
  number, so that the white space of \<^verbatim>\<open>\s\<close> and \<^verbatim>\<open>trim\<close>, the word
  characters of \<^verbatim>\<open>\b\<close> and the two non-ASCII characters of the source's string
  literals are the ones of the language. Case mapping (\<^verbatim>\<open>toUpperCase\<close>,
  \<^verbatim>\<open>toLowerCase\<close>) is modelled on the letters A-Z and a-z, which cover every key and
  value of the dictionary and every letter of the grammar patterns; other code units are
  left as they are.
\<close>

type_synonym code_unit = nat
type_synonym js_string = "code_unit list"

definition str :: "string \<Rightarrow> js_string" where
  "str = map of_char"

definition is_upper_unit :: "code_unit \<Rightarrow> bool" where
  "is_upper_unit c \<longleftrightarrow> 65 \<le> c \<and> c \<le> 90"

definition is_lower_unit :: "code_unit \<Rightarrow> bool" where
  "is_lower_unit c \<longleftrightarrow> 97 \<le> c \<and> c \<le> 122"

definition is_digit_unit :: "code_unit \<Rightarrow> bool" where
  "is_digit_unit c \<longleftrightarrow> 48 \<le> c \<and> c \<le> 57"

definition is_letter_unit :: "code_unit \<Rightarrow> bool" where
  "is_letter_unit c \<longleftrightarrow> is_upper_unit c \<or> is_lower_unit c"

definition to_upper_unit :: "code_unit \<Rightarrow> code_unit" where
  "to_upper_unit c = (if is_lower_unit c then c - 32 else c)"

definition to_lower_unit :: "code_unit \<Rightarrow> code_unit" where
  "to_lower_unit c = (if is_upper_unit c then c + 32 else c)"

definition toUpperCase :: "js_string \<Rightarrow> js_string" where
  "toUpperCase = map to_upper_unit"

definition toLowerCase :: "js_string \<Rightarrow> js_string" where
  "toLowerCase = map to_lower_unit"

text \<open>The class \<^verbatim>\<open>\w\<close> of a pattern without the unicode flag: \<^verbatim>\<open>[A-Za-z0-9_]\<close>.\<close>

definition is_word_unit :: "code_unit \<Rightarrow> bool" where
  "is_word_unit c \<longleftrightarrow> is_lower_unit c \<or> is_upper_unit c \<or> is_digit_unit c \<or> c = 95"

text \<open>
  The class \<^verbatim>\<open>\s\<close>, which is also what \<^verbatim>\<open>trim\<close> strips: the white space and
  line terminator code units of ECMAScript.
\<close>

definition is_space_unit :: "code_unit \<Rightarrow> bool" where
  "is_space_unit c \<longleftrightarrow>
     c \<in> {9, 10, 11, 12, 13, 32, 160, 5760, 8232, 8233, 8239, 8287, 12288, 65279}
     \<or> (8192 \<le> c \<and> c \<le> 8202)"

definition trim :: "js_string \<Rightarrow> js_string" where
  "trim s = rev (dropWhile is_space_unit (rev (dropWhile is_space_unit s)))"

text \<open>
  The values \<^verbatim>\<open>correct\<close> can be called with, and the values a property lookup on the
  dictionary object can give. An object (a function is one) is known by a label only:
  the code asks of it no more than whether it is truthy, whether it is a string, and for
  string methods it does not have.
\<close>

datatype js_value =
    JUndefined
  | JNull
  | JBoolean bool
  | JNumber int
  | JNaN
  | JString js_string
  | JObject string

fun truthy :: "js_value \<Rightarrow> bool" where
  "truthy JUndefined = False"
| "truthy JNull = False"
| "truthy (JBoolean b) = b"
| "truthy (JNumber n) = (n \<noteq> 0)"
| "truthy JNaN = False"
| "truthy (JString s) = (s \<noteq> [])"
| "truthy (JObject l) = True"

fun is_string :: "js_value \<Rightarrow> bool" where
  "is_string (JString s) = True"
| "is_string v = False"

datatype error = TypeError

text \<open>
  Calling a method of \<^verbatim>\<open>String.prototype\<close> on a value: a string has it; on any other
  value of the model the call raises a TypeError (the property is missing, or the value is
  \<^verbatim>\<open>undefined\<close> or \<^verbatim>\<open>null\<close>).
\<close>

fun call_string_method :: "js_value \<Rightarrow> (js_string \<Rightarrow> js_string) \<Rightarrow> error + js_string" where
  "call_string_method (JString s) f = Inr (f s)"
| "call_string_method v f = Inl TypeError"

section \<open>The tokenizer of the spelling pass\<close>

text \<open>
  \<^verbatim>\<open>text.split(/\b/)\<close>: the pattern matches the empty string between a word character
  and a non-word character, so the string is cut at each such place inside it; the empty
  string gives one empty token.
\<close>

fun split_word_boundary :: "js_string \<Rightarrow> js_string list" where
  "split_word_boundary [] = [[]]"
| "split_word_boundary [c] = [[c]]"
| "split_word_boundary (c # d # s) =
     (if is_word_unit c \<noteq> is_word_unit d then [c] # split_word_boundary (d # s)
      else (case split_word_boundary (d # s) of
              [] \<Rightarrow> [[c]]
            | t # ts \<Rightarrow> (c # t) # ts))"

section \<open>The spelling pass\<close>

definition spellingCorrections :: "(js_string \<times> js_string) list" where
  "spellingCorrections = map (\<lambda>(k, v). (str k, v))
     [(''teh'', str ''the''),
      (''recieve'', str ''receive''),
      (''seperate'', str ''separate''),
      (''definately'', str ''definitely''),
      (''occured'', str ''occurred''),
      (''untill'', str ''until''),
      (''sucessful'', str ''successful''),
      (''tommorow'', str ''tomorrow''),
      (''metting'', str ''meeting''),
      (''becuase'', str ''because''),
      (''wich'', str ''which''),
      (''thier'', str ''their''),
      (''wierd'', str ''weird''),
      (''beleive'', str ''believe''),
      (''calender'', str ''calendar''),
      (''arguement'', str ''argument''),
      (''existance'', str ''existence''),
      (''goverment'', str ''government''),
      (''occassion'', str ''occasion''),
      (''realy'', str ''really''),
      (''reccomend'', str ''recommend''),
      (''writting'', str ''writing''),
      (''youre'', str ''you'' @ [39] @ str ''re''),
      (''ur'', str ''your''),
      (''dreamm'', str ''dream''),
      (''lett'', str ''let'')]"

text \<open>
  The dictionary is an object literal, so \<^verbatim>\<open>this.spellingCorrections[lower]\<close> is a
  property read: an own property gives its string, and any other name is looked up in
  \<^verbatim>\<open>Object.prototype\<close>, whose properties are functions, \<^verbatim>\<open>__proto__\<close> giving the
  prototype object itself; a name found nowhere gives \<^verbatim>\<open>undefined\<close>.
\<close>

definition object_prototype :: "(js_string \<times> js_value) list" where
  "object_prototype = map (\<lambda>k. (str k, JObject k))
     [''constructor'', ''__defineGetter__'', ''__defineSetter__'', ''hasOwnProperty'',
      ''__lookupGetter__'', ''__lookupSetter__'', ''isPrototypeOf'',
      ''propertyIsEnumerable'', ''toString'', ''valueOf'', ''__proto__'',
      ''toLocaleString'']"

definition get_property :: "(js_string \<times> js_string) list \<Rightarrow> js_string \<Rightarrow> js_value" where
  "get_property obj key =
     (case map_of obj key of
        Some v \<Rightarrow> JString v
      | None \<Rightarrow> (case map_of object_prototype key of Some v \<Rightarrow> v | None \<Rightarrow> JUndefined))"

text \<open>
  \<^verbatim>\<open>preserveCase(original, correction)\<close>. \<^verbatim>\<open>original[0]\<close> of the empty string is
  \<^verbatim>\<open>undefined\<close>, whose \<^verbatim>\<open>toUpperCase\<close> would raise.
\<close>

definition preserveCase :: "js_string \<Rightarrow> js_value \<Rightarrow> error + js_string" where
  "preserveCase original correction =
     (if original = toUpperCase original then call_string_method correction toUpperCase
      else (case original of
              [] \<Rightarrow> Inl TypeError
            | c # rest \<Rightarrow>
                if [c] = toUpperCase [c]
                then call_string_method correction (\<lambda>s. toUpperCase (take 1 s) @ drop 1 s)
                else call_string_method correction toLowerCase))"

datatype change_type = Spelling | Grammar

record change =
  change_type :: change_type
  change_original :: js_string
  change_corrected :: js_string
  change_message :: js_string

record pass_result =
  pass_text :: js_string
  pass_changes :: "change list"

text \<open>
  The message template of a spelling change; 34 is the double quote and 8594 the arrow
  of the source's template literal.
\<close>

definition spelling_message :: "js_string \<Rightarrow> js_string \<Rightarrow> js_string" where
  "spelling_message word correctedWord =
     str ''Spelling: '' @ [34] @ word @ [34, 32, 8594, 32, 34] @ correctedWord @ [34]"

text \<open>
  The callback of \<^verbatim>\<open>words.map\<close> in \<^verbatim>\<open>spellCorrect\<close>: the word it returns and the
  changes it pushes, or the error it raises.
\<close>

definition correct_word :: "js_string \<Rightarrow> error + (js_string \<times> change list)" where
  "correct_word word =
     (let lower = toLowerCase word;
          correction = get_property spellingCorrections lower
      in if truthy correction
         then (case preserveCase word correction of
                 Inl e \<Rightarrow> Inl e
               | Inr correctedWord \<Rightarrow>
                   Inr (correctedWord,
                        if word \<noteq> correctedWord
                        then [\<lparr>change_type = Spelling, change_original = word,
                               change_corrected = correctedWord,
                               change_message = spelling_message word correctedWord\<rparr>]
                        else []))
         else Inr (word, []))"

fun map_words :: "js_string list \<Rightarrow> error + (js_string list \<times> change list)" where
  "map_words [] = Inr ([], [])"
| "map_words (w # ws) =
     (case correct_word w of
        Inl e \<Rightarrow> Inl e
      | Inr (w', cs) \<Rightarrow>
          (case map_words ws of
             Inl e \<Rightarrow> Inl e
           | Inr (ws', cs') \<Rightarrow> Inr (w' # ws', cs @ cs')))"

definition spellCorrect :: "js_string \<Rightarrow> error + pass_result" where
  "spellCorrect txt =
     (case map_words (split_word_boundary txt) of
        Inl e \<Rightarrow> Inl e
      | Inr (ws, cs) \<Rightarrow> Inr \<lparr>pass_text = concat ws, pass_changes = cs\<rparr>)"

section \<open>Patterns\<close>

text \<open>
  The grammar rules are regular expressions with the flags \<^verbatim>\<open>gi\<close>. The constructs
  they use: one code unit of a class (a literal letter under \<^verbatim>\<open>i\<close> is the class of its
  two cases), the assertion \<^verbatim>\<open>\b\<close>, sequence, alternation, a greedy \<^verbatim>\<open>+\<close> on a
  class, and the capture group 1.
\<close>

datatype regex =
    Empty
  | Class "code_unit \<Rightarrow> bool"
  | Boundary
  | Then regex regex
  | Or regex regex
  | Many1 "code_unit \<Rightarrow> bool"
  | Capture regex

text \<open>
  A matcher state: the code unit before the current position (none at the start of the
  string), the rest of the string from the current position on, and the text of capture
  group 1 once it is set.
\<close>

type_synonym mstate = "code_unit option \<times> js_string \<times> js_string option"

definition word_before :: "code_unit option \<Rightarrow> bool" where
  "word_before pv = (case pv of None \<Rightarrow> False | Some c \<Rightarrow> is_word_unit c)"

definition word_after :: "js_string \<Rightarrow> bool" where
  "word_after r = (case r of [] \<Rightarrow> False | c # r' \<Rightarrow> is_word_unit c)"

text \<open>
  The backtracking matcher: \<open>matcher p s\<close> lists the states in which a match of \<open>p\<close>
  begun in \<open>s\<close> can end, in the order in which the engine tries them (the left
  alternative first, the longest repetition first). The engine takes the first.
\<close>

primrec matcher :: "regex \<Rightarrow> mstate \<Rightarrow> mstate list" where
  "matcher Empty s = [s]"
| "matcher (Class P) s =
     (case s of (pv, r, cap) \<Rightarrow>
        (case r of [] \<Rightarrow> [] | c # r' \<Rightarrow> if P c then [(Some c, r', cap)] else []))"
| "matcher Boundary s =
     (case s of (pv, r, cap) \<Rightarrow> if word_before pv \<noteq> word_after r then [s] else [])"
| "matcher (Then p q) s = concat (map (matcher q) (matcher p s))"
| "matcher (Or p q) s = matcher p s @ matcher q s"
| "matcher (Many1 P) s =
     (case s of (pv, r, cap) \<Rightarrow>
        map (\<lambda>k. (Some (r ! (k - 1)), drop k r, cap))
          (rev [1 ..< Suc (length (takeWhile P r))]))"
| "matcher (Capture p) s =
     (case s of (pv, r, cap) \<Rightarrow>
        map (\<lambda>(pv', r', cap'). (pv', r', Some (take (length r - length r') r)))
          (matcher p s))"

text \<open>
  One attempt at the current position: the matched text, the capture, the code unit
  before the end of the match and the rest after it.
\<close>

record match =
  matched :: js_string
  group1 :: "js_string option"
  last_unit :: "code_unit option"
  remainder :: js_string

definition exec_at :: "regex \<Rightarrow> code_unit option \<Rightarrow> js_string \<Rightarrow> match option" where
  "exec_at p pv r =
     (case matcher p (pv, r, None) of
        [] \<Rightarrow> None
      | (pv', r', cap) # others \<Rightarrow>
          Some \<lparr>matched = take (length r - length r') r, group1 = cap,
                last_unit = pv', remainder = r'\<rparr>)"

text \<open>
  The replacement templates: literal text and \<^verbatim>\<open>$1\<close>, which stands for the capture
  (the empty string if the group did not take part).
\<close>

datatype piece = Lit js_string | Group1

fun expand :: "piece list \<Rightarrow> match \<Rightarrow> js_string" where
  "expand [] m = []"
| "expand (Lit l # ps) m = l @ expand ps m"
| "expand (Group1 # ps) m = (case group1 m of None \<Rightarrow> [] | Some g \<Rightarrow> g) @ expand ps m"

text \<open>
  \<^verbatim>\<open>str.matchAll(pattern)\<close> and \<^verbatim>\<open>str.replace(pattern, replacement)\<close> with a global
  pattern: the search goes from left to right, tries every position until a match is
  found, and goes on from the end of the match, or one code unit further after an empty
  match. Both functions take the code unit before the current position and the rest of
  the string.
\<close>

function matchAll_from :: "regex \<Rightarrow> code_unit option \<Rightarrow> js_string \<Rightarrow> match list" where
  "matchAll_from p pv r =
     (case exec_at p pv r of
        None \<Rightarrow> (case r of [] \<Rightarrow> [] | c # r' \<Rightarrow> matchAll_from p (Some c) r')
      | Some m \<Rightarrow>
          m # (if length (remainder m) < length r
               then matchAll_from p (last_unit m) (remainder m)
               else (case r of [] \<Rightarrow> [] | c # r' \<Rightarrow> matchAll_from p (Some c) r')))"
  by pat_completeness auto
termination
  by (relation "measure (\<lambda>(p, pv, r). length r)") auto

declare matchAll_from.simps [simp del]

function replace_from :: "regex \<Rightarrow> piece list \<Rightarrow> code_unit option \<Rightarrow> js_string \<Rightarrow> js_string" where
  "replace_from p t pv r =
     (case exec_at p pv r of
        None \<Rightarrow> (case r of [] \<Rightarrow> [] | c # r' \<Rightarrow> c # replace_from p t (Some c) r')
      | Some m \<Rightarrow>
          expand t m @
            (if length (remainder m) < length r
             then replace_from p t (last_unit m) (remainder m)
             else (case r of [] \<Rightarrow> [] | c # r' \<Rightarrow> c # replace_from p t (Some c) r')))"
  by pat_completeness auto
termination
  by (relation "measure (\<lambda>(p, t, pv, r). length r)") auto

declare replace_from.simps [simp del]

definition matchAll :: "regex \<Rightarrow> js_string \<Rightarrow> match list" where
  "matchAll p s = matchAll_from p None s"

definition replace :: "regex \<Rightarrow> piece list \<Rightarrow> js_string \<Rightarrow> js_string" where
  "replace p t s = replace_from p t None s"

section \<open>The grammar pass\<close>

text \<open>A literal letter of a pattern with the flag \<^verbatim>\<open>i\<close>, and a literal word.\<close>

definition letter :: "char \<Rightarrow> regex" where
  "letter c = Class (\<lambda>x. to_upper_unit x = to_upper_unit (of_char c))"

fun word :: "string \<Rightarrow> regex" where
  "word [] = Empty"
| "word [c] = letter c"
| "word (c # cs) = Then (letter c) (word cs)"

text \<open>An alternation of literal words, tried from left to right.\<close>

fun alternatives :: "string list \<Rightarrow> regex" where
  "alternatives [] = Class (\<lambda>x. False)"
| "alternatives [w] = word w"
| "alternatives (w # ws) = Or (word w) (alternatives ws)"

definition vowel :: "code_unit \<Rightarrow> bool" where
  "vowel x \<longleftrightarrow> to_upper_unit x \<in> to_upper_unit ` set (str ''aeiou'')"

record rule =
  pattern :: regex
  replacement :: "piece list"
  rule_message :: js_string

definition rule1 :: rule where
  "rule1 = \<lparr>pattern =
       Then Boundary (Then (Capture (alternatives [''I'', ''he'', ''she'', ''it'']))
         (Then (Many1 is_space_unit) (Then (word ''are'') Boundary))),
     replacement = [Group1, Lit (str '' am/is'')],
     rule_message = str ''Subject-verb agreement error''\<rparr>"

definition rule2 :: rule where
  "rule2 = \<lparr>pattern =
       Then Boundary (Then (Capture (alternatives [''I'', ''you'', ''we'', ''they'']))
         (Then (Many1 is_space_unit) (Then (word ''is'') Boundary))),
     replacement = [Group1, Lit (str '' are'')],
     rule_message = str ''Subject-verb agreement error''\<rparr>"

definition rule3 :: rule where
  "rule3 = \<lparr>pattern =
       Then Boundary (Then (word ''I'')
         (Then (Many1 is_space_unit) (Then (word ''has'') Boundary))),
     replacement = [Lit (str ''I have'')],
     rule_message = str ''Incorrect verb form''\<rparr>"

definition rule4 :: rule where
  "rule4 = \<lparr>pattern =
       Then Boundary (Then (Capture (alternatives [''he'', ''she'', ''it'']))
         (Then (Many1 is_space_unit) (Then (word ''have'') Boundary))),
     replacement = [Group1, Lit (str '' has'')],
     rule_message = str ''Subject-verb agreement error''\<rparr>"

definition rule5 :: rule where
  "rule5 = \<lparr>pattern =
       Then Boundary (Then (word ''a'')
         (Then (Many1 is_space_unit) (Capture (Class vowel)))),
     replacement = [Lit (str ''an ''), Group1],
     rule_message = str ''Article usage: use '' @ [34] @ str ''an'' @ [34] @ str '' before vowel sounds''\<rparr>"

definition rule6 :: rule where
  "rule6 = \<lparr>pattern =
       Then Boundary (Then (word ''an'')
         (Then (Many1 is_space_unit) (Capture (Class (\<lambda>x. \<not> vowel x))))),
     replacement = [Lit (str ''a ''), Group1],
     rule_message = str ''Article usage: use '' @ [34] @ str ''a'' @ [34] @ str '' before consonant sounds''\<rparr>"

definition grammarRules :: "rule list" where
  "grammarRules = [rule1, rule2, rule3, rule4, rule5, rule6]"

text \<open>
  The body of \<^verbatim>\<open>grammarRules.forEach\<close>: the changes of one rule on the working copy
  (a change for every match whose text is not empty, its corrected span being the
  replacement applied to the matched text alone), and the new working copy.
\<close>

definition rule_changes :: "rule \<Rightarrow> js_string \<Rightarrow> change list" where
  "rule_changes r corrected =
     map (\<lambda>m. \<lparr>change_type = Grammar, change_original = matched m,
                change_corrected = replace (pattern r) (replacement r) (matched m),
                change_message = rule_message r\<rparr>)
       (filter (\<lambda>m. matched m \<noteq> []) (matchAll (pattern r) corrected))"

fun apply_rules :: "rule list \<Rightarrow> js_string \<Rightarrow> change list \<Rightarrow> pass_result" where
  "apply_rules [] corrected chs = \<lparr>pass_text = corrected, pass_changes = chs\<rparr>"
| "apply_rules (r # rs) corrected chs =
     apply_rules rs (replace (pattern r) (replacement r) corrected)
       (chs @ rule_changes r corrected)"

definition grammarCorrect :: "js_string \<Rightarrow> pass_result" where
  "grammarCorrect txt = apply_rules grammarRules txt []"

section \<open>The orchestrator\<close>

record options =
  spellCheck :: bool
  grammarCheck :: bool

definition default_options :: options where
  "default_options = \<lparr>spellCheck = True, grammarCheck = True\<rparr>"

record result =
  original :: js_value
  spellCorrected :: js_value
  corrected :: js_value
  result_changes :: "change list"

text \<open>\<^verbatim>\<open>text || ''\<close>\<close>

definition or_empty :: "js_value \<Rightarrow> js_value" where
  "or_empty v = (if truthy v then v else JString [])"

definition invalid_result :: "js_value \<Rightarrow> result" where
  "invalid_result v =
     \<lparr>original = or_empty v, spellCorrected = or_empty v, corrected = or_empty v,
      result_changes = []\<rparr>"

text \<open>The body of \<^verbatim>\<open>correct\<close> after the guard, on the string it was given.\<close>

definition correct_string :: "js_string \<Rightarrow> options \<Rightarrow> error + result" where
  "correct_string s opts =
     (let trimmed = trim s in
      (case (if spellCheck opts
             then (case spellCorrect trimmed of
                     Inl e \<Rightarrow> Inl e
                   | Inr spellResult \<Rightarrow> Inr (pass_text spellResult, pass_changes spellResult))
             else Inr (trimmed, [])) of
         Inl e \<Rightarrow> Inl e
       | Inr (spellText, chs) \<Rightarrow>
           (let (finalCorrected, chs') =
                  (if grammarCheck opts
                   then (let grammarResult = grammarCorrect spellText
                         in (pass_text grammarResult, chs @ pass_changes grammarResult))
                   else (trimmed, chs))
            in Inr \<lparr>original = JString trimmed, spellCorrected = JString spellText,
                    corrected = JString finalCorrected, result_changes = chs'\<rparr>)))"

text \<open>
  \<^verbatim>\<open>correct(text, options)\<close>. The guard \<^verbatim>\<open>!text || typeof text !== 'string'\<close> lets
  through the strings that are truthy.
\<close>

definition correct :: "js_value \<Rightarrow> options \<Rightarrow> error + result" where
  "correct txt opts =
     (if \<not> truthy txt \<or> \<not> is_string txt then Inr (invalid_result txt)
      else (case txt of JString s \<Rightarrow> correct_string s opts | v \<Rightarrow> Inr (invalid_result v)))"

section \<open>The diff\<close>

text \<open>
  \<^verbatim>\<open>str.split(/(\s+)/)\<close>: the string is cut at every maximal run of white space, and
  the capture group puts each run into the result between the pieces it separates.
\<close>

function split_whitespace :: "js_string \<Rightarrow> js_string list" where
  "split_whitespace s =
     (case dropWhile (\<lambda>c. \<not> is_space_unit c) s of
        [] \<Rightarrow> [s]
      | c # r \<Rightarrow>
          takeWhile (\<lambda>c. \<not> is_space_unit c) s # (c # takeWhile is_space_unit r)
            # split_whitespace (dropWhile is_space_unit r))"
  by pat_completeness auto
termination
proof (relation "measure length")
  show "wf (measure length)" by simp
next
  fix s :: js_string and c r
  assume d: "dropWhile (\<lambda>c. \<not> is_space_unit c) s = c # r"
  have "length (dropWhile is_space_unit r) \<le> length r"
    by (rule length_dropWhile_le)
  moreover have "length (c # r) \<le> length s"
    unfolding d [symmetric] by (rule length_dropWhile_le)
  ultimately show "(dropWhile is_space_unit r, s) \<in> measure length"
    by simp
qed

declare split_whitespace.simps [simp del]

text \<open>
  \<^verbatim>\<open>escapeHtml\<close> writes the text into an element and reads its markup back: the
  serialisation of a text node replaces the ampersand, the angle brackets and the
  no-break space by their entities.
\<close>

definition escape_unit :: "code_unit \<Rightarrow> js_string" where
  "escape_unit c =
     (if c = 38 then str ''&amp;''
      else if c = 60 then str ''&lt;''
      else if c = 62 then str ''&gt;''
      else if c = 160 then str ''&nbsp;''
      else [c])"

definition escapeHtml :: "js_string \<Rightarrow> js_string" where
  "escapeHtml s = concat (map escape_unit s)"

definition span_added :: "js_string \<Rightarrow> js_string" where
  "span_added x = str ''<span class='' @ [34] @ str ''diff-added'' @ [34] @ str ''>'' @ x @ str ''</span>''"

definition span_removed :: "js_string \<Rightarrow> js_string" where
  "span_removed x = str ''<span class='' @ [34] @ str ''diff-removed'' @ [34] @ str ''>'' @ x @ str ''</span>''"

text \<open>The message for equal texts; 10003 is the check mark of the source's literal.\<close>

definition no_changes :: js_string where
  "no_changes = str ''<span style='' @ [34] @ str ''color: #28a745; font-weight: 600;'' @ [34]
     @ str ''>'' @ [10003] @ str '' No changes needed - text is already correct!</span>''"

text \<open>The \<^verbatim>\<open>while\<close> loop of \<^verbatim>\<open>generateDiff\<close>, with its two cursors and its buffer.\<close>

function diff_loop ::
  "js_string list \<Rightarrow> js_string list \<Rightarrow> nat \<Rightarrow> nat \<Rightarrow> js_string \<Rightarrow> js_string" where
  "diff_loop originalWords correctedWords i j diffHtml =
     (if i < length originalWords \<or> j < length correctedWords then
        (if i \<ge> length originalWords then
           diff_loop originalWords correctedWords i (j + 1)
             (diffHtml @ span_added (escapeHtml (correctedWords ! j)))
         else if j \<ge> length correctedWords then
           diff_loop originalWords correctedWords (i + 1) j
             (diffHtml @ span_removed (escapeHtml (originalWords ! i)))
         else if originalWords ! i = correctedWords ! j then
           diff_loop originalWords correctedWords (i + 1) (j + 1)
             (diffHtml @ escapeHtml (originalWords ! i))
         else
           diff_loop originalWords correctedWords (i + 1) (j + 1)
             (diffHtml @ span_removed (escapeHtml (originalWords ! i))
                @ span_added (escapeHtml (correctedWords ! j))))
      else diffHtml)"
  by pat_completeness auto
termination
  by (relation "measure (\<lambda>(ow, cw, i, j, h). (length ow - i) + (length cw - j))") auto

declare diff_loop.simps [simp del]

definition generateDiff :: "js_string \<Rightarrow> js_string \<Rightarrow> js_string" where
  "generateDiff original_text corrected_text =
     (if original_text = corrected_text then no_changes
      else diff_loop (split_whitespace original_text) (split_whitespace corrected_text) 0 0 [])"

text \<open>
  The diff as the specification words it: a sequence of segments of three kinds, made by
  a walk in lock-step over the two token sequences, or the indicator that nothing changed;
  and the markup that stands for such a result.
\<close>

datatype diff_segment = Unchanged js_string | Added js_string | Removed js_string

datatype diff_result = NoChanges | Segments "diff_segment list"

fun spec_lockstep :: "js_string list \<Rightarrow> js_string list \<Rightarrow> diff_segment list" where
  "spec_lockstep [] [] = []"
| "spec_lockstep [] (c # cs) = Added c # spec_lockstep [] cs"
| "spec_lockstep (w # ws) [] = Removed w # spec_lockstep ws []"
| "spec_lockstep (w # ws) (c # cs) =
     (if w = c then Unchanged w # spec_lockstep ws cs
      else Removed w # Added c # spec_lockstep ws cs)"

definition spec_diff :: "js_string \<Rightarrow> js_string \<Rightarrow> diff_result" where
  "spec_diff original_text corrected_text =
     (if original_text = corrected_text then NoChanges
      else Segments (spec_lockstep (split_whitespace original_text)
                       (split_whitespace corrected_text)))"

fun render_segment :: "diff_segment \<Rightarrow> js_string" where
  "render_segment (Unchanged t) = escapeHtml t"
| "render_segment (Added t) = span_added (escapeHtml t)"
| "render_segment (Removed t) = span_removed (escapeHtml t)"


section \<open>Notions for the proofs\<close>

text \<open>
  The three texts \<^verbatim>\<open>preserveCase\<close> can return for a correction: uppercased, with the
  first code unit uppercased, lowercased; and all of them for all values of the
  dictionary.
\<close>

definition case_forms :: "js_string \<Rightarrow> js_string list" where
  "case_forms v = [toUpperCase v, toUpperCase (take 1 v) @ drop 1 v, toLowerCase v]"

definition all_replacements :: "js_string list" where
  "all_replacements = concat (map (\<lambda>(k, v). case_forms v) spellingCorrections)"

text \<open>A token for which the lookup of \<^verbatim>\<open>spellCorrect\<close> finds nothing.\<close>

definition miss :: "js_string \<Rightarrow> bool" where
  "miss w \<longleftrightarrow> \<not> truthy (get_property spellingCorrections (toLowerCase w))"

text \<open>
  A text of word characters only or of other characters only, and a list of texts,
  none empty, with a word boundary between each text and the next.
\<close>

definition uniform :: "js_string \<Rightarrow> bool" where
  "uniform w \<longleftrightarrow> list_all is_word_unit w \<or> list_all (\<lambda>c. \<not> is_word_unit c) w"

fun token_list :: "js_string list \<Rightarrow> bool" where
  "token_list [] = True"
| "token_list [a] = (a \<noteq> [])"
| "token_list (a # b # ws) =
     (a \<noteq> [] \<and> is_word_unit (last a) \<noteq> is_word_unit (hd b) \<and> token_list (b # ws))"

section \<open>Evaluation\<close>

lemmas unit_defs = is_upper_unit_def is_lower_unit_def is_digit_unit_def is_letter_unit_def
  to_upper_unit_def
  to_lower_unit_def is_word_unit_def is_space_unit_def

lemmas string_defs = str_def toUpperCase_def toLowerCase_def trim_def

lemmas spell_defs = spellingCorrections_def object_prototype_def get_property_def
  preserveCase_def correct_word_def spellCorrect_def Let_def

lemmas regex_defs = word_before_def word_after_def exec_at_def matchAll_def replace_def
  matchAll_from.simps replace_from.simps letter_def vowel_def

lemmas grammar_defs = rule1_def rule2_def rule3_def rule4_def rule5_def rule6_def
  grammarRules_def rule_changes_def grammarCorrect_def

lemmas correct_defs = default_options_def or_empty_def invalid_result_def correct_string_def
  correct_def

lemmas diff_defs = escape_unit_def escapeHtml_def span_added_def span_removed_def
  no_changes_def generateDiff_def spec_diff_def split_whitespace.simps

section \<open>The orchestrator's result\<close>

text \<open>
  C1. The result of \<^verbatim>\<open>correct\<close> was to have \<open>corrected\<close> equal to \<open>spellCorrected\<close>
  whenever the grammar check is disabled. With the spelling check alone, on
  "teh dreamm is over", the code returns the spelled text in \<open>spellCorrected\<close> and the
  two spelling changes, but \<open>corrected\<close> is the trimmed input: \<open>finalCorrected\<close> starts as
  \<open>original\<close> and only the grammar step assigns it.
\<close>

theorem correct_spell_only_corrected_is_original:
  "correct (JString (str ''teh dreamm is over'')) \<lparr>spellCheck = True, grammarCheck = False\<rparr>
   = Inr \<lparr>original = JString (str ''teh dreamm is over''),
          spellCorrected = JString (str ''the dream is over''),
          corrected = JString (str ''teh dreamm is over''),
          result_changes =
            [\<lparr>change_type = Spelling, change_original = str ''teh'',
              change_corrected = str ''the'',
              change_message = spelling_message (str ''teh'') (str ''the'')\<rparr>,
             \<lparr>change_type = Spelling, change_original = str ''dreamm'',
              change_corrected = str ''dream'',
              change_message = spelling_message (str ''dreamm'') (str ''dream'')\<rparr>]\<rparr>"
  by (simp add: correct_defs spell_defs string_defs unit_defs)

theorem correct_spell_only_corrected_is_original_witness:
  "map_sum id corrected
     (correct (JString (str ''teh dreamm is over'')) \<lparr>spellCheck = True, grammarCheck = False\<rparr>)
   = Inr (JString (str ''teh dreamm is over''))
   \<and> map_sum id spellCorrected
     (correct (JString (str ''teh dreamm is over'')) \<lparr>spellCheck = True, grammarCheck = False\<rparr>)
   = Inr (JString (str ''the dream is over''))"
  using correct_spell_only_corrected_is_original by simp

text \<open>What holds of the coupling: with both checks disabled all three texts are the trimmed input.\<close>

lemma correct_both_disabled:
  "s \<noteq> [] \<Longrightarrow>
   correct (JString s) \<lparr>spellCheck = False, grammarCheck = False\<rparr>
   = Inr \<lparr>original = JString (trim s), spellCorrected = JString (trim s),
          corrected = JString (trim s), result_changes = []\<rparr>"
  by (simp add: correct_def correct_string_def Let_def)

text \<open>
  C2. \<^verbatim>\<open>correct\<close> and \<^verbatim>\<open>spellCorrect\<close> were never to raise. On the word "constructor"
  the dictionary lookup finds the property that the dictionary object inherits, a
  function, which is truthy and has no \<^verbatim>\<open>toLowerCase\<close>: \<^verbatim>\<open>preserveCase\<close> raises a
  TypeError, and so do \<^verbatim>\<open>spellCorrect\<close> and \<^verbatim>\<open>correct\<close>.
\<close>

theorem spellCorrect_constructor_raises:
  "spellCorrect (str ''constructor'') = Inl TypeError
   \<and> correct (JString (str ''constructor'')) default_options = Inl TypeError
   \<and> correct (JString (str ''the __proto__ of it'')) default_options = Inl TypeError"
  by (simp add: correct_defs spell_defs string_defs unit_defs)

theorem spellCorrect_constructor_raises_witness:
  "isl (spellCorrect (str ''constructor''))
   \<and> isl (correct (JString (str ''constructor'')) default_options)"
  using spellCorrect_constructor_raises by simp

text \<open>
  The lookup is made with the lowercase form of the word, so of the inherited names
  only those without an uppercase letter are found: "toString" is left as it is.
\<close>

lemma spellCorrect_toString:
  "spellCorrect (str ''toString'') = Inr \<lparr>pass_text = str ''toString'', pass_changes = []\<rparr>"
  by (simp add: spell_defs string_defs unit_defs)

text \<open>
  C3, as stated, fails: for a truthy input that is not a string the guard returns the
  input itself in the three fields (\<^verbatim>\<open>text || ''\<close>), not the empty string.
\<close>

theorem correct_number_counterexample:
  "correct (JNumber 42) default_options
   = Inr \<lparr>original = JNumber 42, spellCorrected = JNumber 42, corrected = JNumber 42,
          result_changes = []\<rparr>
   \<and> \<not> is_string (JNumber 42)"
  by (simp add: correct_defs)

lemma correct_string_fields:
  "correct_string s opts = Inr r \<Longrightarrow>
   is_string (original r) \<and> is_string (spellCorrected r) \<and> is_string (corrected r)"
  by (auto simp: correct_string_def Let_def split: if_splits sum.splits prod.splits)

lemma is_string_defined: "is_string v \<Longrightarrow> v \<noteq> JNull \<and> v \<noteq> JUndefined"
  by (cases v) simp_all

text \<open>
  C3, amended. For the empty string and for every input that is not a string,
  \<^verbatim>\<open>correct\<close> returns, without raising, a result with no changes whose three text fields
  are \<^verbatim>\<open>text || ''\<close>: the empty string when the input is falsy, the input itself when it
  is truthy. Whenever \<^verbatim>\<open>correct\<close> returns a result, none of the three fields is
  \<^verbatim>\<open>null\<close> or \<^verbatim>\<open>undefined\<close>, and all three are strings when the input is a string
  or is falsy.
\<close>

theorem correct_invalid_input:
  "(\<not> is_string v \<or> v = JString [] \<longrightarrow>
      correct v opts
      = Inr \<lparr>original = (if truthy v then v else JString []),
             spellCorrected = (if truthy v then v else JString []),
             corrected = (if truthy v then v else JString []),
             result_changes = []\<rparr>)
   \<and> (\<forall>r. correct v opts = Inr r \<longrightarrow>
          original r \<notin> {JNull, JUndefined} \<and> spellCorrected r \<notin> {JNull, JUndefined}
          \<and> corrected r \<notin> {JNull, JUndefined}
          \<and> (is_string v \<or> \<not> truthy v \<longrightarrow>
                is_string (original r) \<and> is_string (spellCorrected r)
                \<and> is_string (corrected r)))"
proof (intro conjI impI allI)
  assume "\<not> is_string v \<or> v = JString []"
  then show "correct v opts
      = Inr \<lparr>original = (if truthy v then v else JString []),
             spellCorrected = (if truthy v then v else JString []),
             corrected = (if truthy v then v else JString []),
             result_changes = []\<rparr>"
    by (auto simp: correct_def invalid_result_def or_empty_def)
next
  fix r
  assume ret: "correct v opts = Inr r"
  show "original r \<notin> {JNull, JUndefined}"
  proof (cases "\<not> truthy v \<or> \<not> is_string v")
    case True
    with ret have "original r = or_empty v"
      by (auto simp: correct_def invalid_result_def)
    then show ?thesis
      by (cases v) (auto simp: or_empty_def)
  next
    case False
    then obtain s where "v = JString s" by (cases v) auto
    with False ret have "correct_string s opts = Inr r" by (simp add: correct_def)
    then show ?thesis using correct_string_fields is_string_defined by blast
  qed
  show "spellCorrected r \<notin> {JNull, JUndefined}"
  proof (cases "\<not> truthy v \<or> \<not> is_string v")
    case True
    with ret have "spellCorrected r = or_empty v"
      by (auto simp: correct_def invalid_result_def)
    then show ?thesis
      by (cases v) (auto simp: or_empty_def)
  next
    case False
    then obtain s where "v = JString s" by (cases v) auto
    with False ret have "correct_string s opts = Inr r" by (simp add: correct_def)
    then show ?thesis using correct_string_fields is_string_defined by blast
  qed
  show "corrected r \<notin> {JNull, JUndefined}"
  proof (cases "\<not> truthy v \<or> \<not> is_string v")
    case True
    with ret have "corrected r = or_empty v"
      by (auto simp: correct_def invalid_result_def)
    then show ?thesis
      by (cases v) (auto simp: or_empty_def)
  next
    case False
    then obtain s where "v = JString s" by (cases v) auto
    with False ret have "correct_string s opts = Inr r" by (simp add: correct_def)
    then show ?thesis using correct_string_fields is_string_defined by blast
  qed
  assume sf: "is_string v \<or> \<not> truthy v"
  show "is_string (original r)" "is_string (spellCorrected r)" "is_string (corrected r)"
  proof -
    have "is_string (original r) \<and> is_string (spellCorrected r) \<and> is_string (corrected r)"
    proof (cases "truthy v")
      case False
      with ret have "r = invalid_result v" by (simp add: correct_def)
      with False show ?thesis by (simp add: invalid_result_def or_empty_def)
    next
      case True
      with sf obtain s where "v = JString s" by (cases v) auto
      with True ret have "correct_string s opts = Inr r" by (simp add: correct_def)
      then show ?thesis by (rule correct_string_fields)
    qed
    then show "is_string (original r)" "is_string (spellCorrected r)" "is_string (corrected r)"
      by simp_all
  qed
qed

theorem correct_invalid_input_witness:
  "correct JNull default_options
   = Inr \<lparr>original = JString [], spellCorrected = JString [], corrected = JString [],
          result_changes = []\<rparr>
   \<and> is_string (original \<lparr>original = JString [], spellCorrected = JString [],
        corrected = JString [], result_changes = []\<rparr>)"
  using correct_invalid_input [of JNull default_options] by simp

section \<open>Tokenization\<close>

lemma split_word_boundary_nonempty: "split_word_boundary s \<noteq> []"
  by (induction s rule: split_word_boundary.induct) (simp_all split: list.split)

lemma concat_split_word_boundary: "concat (split_word_boundary s) = s"
proof (induction s rule: split_word_boundary.induct)
  case (3 c d s)
  then show ?case
    by (cases "split_word_boundary (d # s)") (auto simp: split_word_boundary_nonempty)
qed simp_all

lemma to_lower_unit_non_word: "\<not> is_word_unit c \<Longrightarrow> to_lower_unit c = c"
  by (simp add: unit_defs)

lemma is_word_to_lower_unit: "is_word_unit (to_lower_unit c) = is_word_unit c"
  by (auto simp: unit_defs)

lemma keys_are_words:
  "k \<in> fst ` set spellingCorrections \<union> fst ` set object_prototype \<Longrightarrow> list_all is_word_unit k"
  by (auto simp: spellingCorrections_def object_prototype_def str_def unit_defs)

lemma get_property_truthy_key:
  assumes "truthy (get_property spellingCorrections k)"
  shows "k \<in> fst ` set spellingCorrections \<union> fst ` set object_prototype"
proof (cases "map_of spellingCorrections k")
  case (Some v)
  then show ?thesis by (auto dest: map_of_SomeD intro: rev_image_eqI)
next
  case None
  with assms obtain v where "map_of object_prototype k = Some v"
    by (auto simp: get_property_def split: option.splits)
  then show ?thesis by (auto dest: map_of_SomeD intro: rev_image_eqI)
qed

lemma hit_is_word:
  assumes "truthy (get_property spellingCorrections (toLowerCase w))"
  shows "list_all is_word_unit w"
proof -
  have "list_all is_word_unit (toLowerCase w)"
    using assms get_property_truthy_key keys_are_words by blast
  then show ?thesis
    by (simp add: toLowerCase_def list_all_iff is_word_to_lower_unit)
qed

lemma map_words_length:
  "map_words ws = Inr (ws', cs) \<Longrightarrow> length ws' = length ws"
  by (induction ws arbitrary: ws' cs) (auto split: sum.splits prod.splits)

lemma map_words_verbatim:
  "map_words ws = Inr (ws', cs) \<Longrightarrow>
   list_all2 (\<lambda>w w'. w' = w \<or> truthy (get_property spellingCorrections (toLowerCase w))) ws ws'"
proof (induction ws arbitrary: ws' cs)
  case Nil
  then show ?case by simp
next
  case (Cons w ws)
  then show ?case
    by (auto simp: correct_word_def Let_def split: sum.splits prod.splits if_splits)
qed

text \<open>
  C4. The tokenization of the spelling pass is lossless: the tokens of any string,
  concatenated in order, are the string. A token with a character that is not a word
  character (white space, punctuation) is never found in the dictionary, and when
  \<^verbatim>\<open>spellCorrect\<close> returns, its text is the concatenation of one piece for each token,
  the token itself unless the token was found in the dictionary.
\<close>

theorem tokenization_lossless:
  "concat (split_word_boundary s) = s
   \<and> (\<forall>w. (\<exists>c \<in> set w. \<not> is_word_unit c) \<longrightarrow>
          \<not> truthy (get_property spellingCorrections (toLowerCase w))
          \<and> correct_word w = Inr (w, []))
   \<and> (\<forall>r. spellCorrect s = Inr r \<longrightarrow>
          (\<exists>ws'. pass_text r = concat ws'
             \<and> list_all2 (\<lambda>w w'. w' = w \<or> truthy (get_property spellingCorrections (toLowerCase w)))
                  (split_word_boundary s) ws'))"
proof (intro conjI allI impI)
  show "concat (split_word_boundary s) = s"
    by (rule concat_split_word_boundary)
next
  fix w
  assume nw: "\<exists>c \<in> set w. \<not> is_word_unit c"
  show miss: "\<not> truthy (get_property spellingCorrections (toLowerCase w))"
  proof
    assume "truthy (get_property spellingCorrections (toLowerCase w))"
    then have "list_all is_word_unit w" by (rule hit_is_word)
    with nw show False by (auto simp: list_all_iff)
  qed
  then show "correct_word w = Inr (w, [])"
    by (simp add: correct_word_def)
next
  fix r
  assume "spellCorrect s = Inr r"
  then obtain ws' cs where m: "map_words (split_word_boundary s) = Inr (ws', cs)"
    and r: "r = \<lparr>pass_text = concat ws', pass_changes = cs\<rparr>"
    by (auto simp: spellCorrect_def split: sum.splits prod.splits)
  from m have "list_all2 (\<lambda>w w'. w' = w \<or> truthy (get_property spellingCorrections (toLowerCase w)))
     (split_word_boundary s) ws'"
    by (rule map_words_verbatim)
  with r show "\<exists>ws'. pass_text r = concat ws'
             \<and> list_all2 (\<lambda>w w'. w' = w \<or> truthy (get_property spellingCorrections (toLowerCase w)))
                  (split_word_boundary s) ws'"
    by auto
qed

theorem tokenization_lossless_witness:
  "concat (split_word_boundary (str ''teh, cat'')) = str ''teh, cat''
   \<and> correct_word (str '', '') = Inr (str '', '', [])
   \<and> spellCorrect (str ''teh, cat'')
       = Inr \<lparr>pass_text = str ''the, cat'',
              pass_changes = [\<lparr>change_type = Spelling, change_original = str ''teh'',
                change_corrected = str ''the'',
                change_message = spelling_message (str ''teh'') (str ''the'')\<rparr>]\<rparr>"
proof -
  have nw: "\<exists>c \<in> set (str '', ''). \<not> is_word_unit c"
    by (simp add: str_def unit_defs)
  have sp: "spellCorrect (str ''teh, cat'')
       = Inr \<lparr>pass_text = str ''the, cat'',
              pass_changes = [\<lparr>change_type = Spelling, change_original = str ''teh'',
                change_corrected = str ''the'',
                change_message = spelling_message (str ''teh'') (str ''the'')\<rparr>]\<rparr>"
    by (simp add: spell_defs string_defs unit_defs)
  from tokenization_lossless [of "str ''teh, cat''"] nw sp show ?thesis
    by blast
qed

section \<open>Case preservation\<close>




section \<open>The diff\<close>

lemma diff_loop_lockstep:
  "i \<le> length ow \<Longrightarrow> j \<le> length cw \<Longrightarrow>
   diff_loop ow cw i j h = h @ concat (map render_segment (spec_lockstep (drop i ow) (drop j cw)))"
proof (induction ow cw i j h rule: diff_loop.induct)
  case (1 ow cw i j h)
  show ?case
  proof (cases "i < length ow")
    case iT: True
    then have di: "drop i ow = ow ! i # drop (Suc i) ow"
      by (simp add: Cons_nth_drop_Suc)
    show ?thesis
    proof (cases "j < length cw")
      case jT: True
      then have dj: "drop j cw = cw ! j # drop (Suc j) cw"
        by (simp add: Cons_nth_drop_Suc)
      show ?thesis
      proof (cases "ow ! i = cw ! j")
        case True
        with iT jT "1.IH"(3) have "diff_loop ow cw i j h =
          (h @ escapeHtml (ow ! i))
            @ concat (map render_segment (spec_lockstep (drop (Suc i) ow) (drop (Suc j) cw)))"
          by (subst diff_loop.simps) simp
        with True show ?thesis by (simp add: di dj)
      next
        case False
        with iT jT "1.IH"(4) have "diff_loop ow cw i j h =
          (h @ span_removed (escapeHtml (ow ! i)) @ span_added (escapeHtml (cw ! j)))
            @ concat (map render_segment (spec_lockstep (drop (Suc i) ow) (drop (Suc j) cw)))"
          by (subst diff_loop.simps) simp
        with False show ?thesis by (simp add: di dj)
      qed
    next
      case jF: False
      with "1.prems" have dj: "drop j cw = []" by simp
      from iT jF "1.IH"(2) "1.prems" have "diff_loop ow cw i j h =
          (h @ span_removed (escapeHtml (ow ! i)))
            @ concat (map render_segment (spec_lockstep (drop (Suc i) ow) (drop j cw)))"
        by (subst diff_loop.simps) simp
      then show ?thesis by (simp add: di dj)
    qed
  next
    case iF: False
    with "1.prems" have di: "drop i ow = []" by simp
    show ?thesis
    proof (cases "j < length cw")
      case jT: True
      then have dj: "drop j cw = cw ! j # drop (Suc j) cw"
        by (simp add: Cons_nth_drop_Suc)
      from iF jT "1.IH"(1) "1.prems" have "diff_loop ow cw i j h =
          (h @ span_added (escapeHtml (cw ! j)))
            @ concat (map render_segment (spec_lockstep (drop i ow) (drop (Suc j) cw)))"
        by (subst diff_loop.simps) simp
      then show ?thesis by (simp add: di dj)
    next
      case jF: False
      with "1.prems" have dj: "drop j cw = []" by simp
      from iF jF have "diff_loop ow cw i j h = h"
        by (subst diff_loop.simps) simp
      then show ?thesis by (simp add: di dj)
    qed
  qed
qed



text \<open>
  The segments of the walk are of the three kinds only, and a position where the tokens
  differ gives a removed segment followed by an added one.
\<close>

lemma spec_lockstep_replacement:
  "w \<noteq> c \<Longrightarrow> spec_lockstep (w # ws) (c # cs) = Removed w # Added c # spec_lockstep ws cs"
  by simp

text \<open>
  The markup of a segment sequence is never the indicator, so a caller can tell the two
  results apart.
\<close>

lemma escapeHtml_no_open: "60 \<notin> set (escapeHtml t)"
  by (induction t) (auto simp: escapeHtml_def escape_unit_def str_def)

lemma render_segments_not_indicator:
  "concat (map render_segment segs) \<noteq> no_changes"
proof (induction segs)
  case Nil
  then show ?case by (simp add: no_changes_def str_def)
next
  case (Cons seg segs)
  have nc: "no_changes = 60 # tl no_changes" "no_changes ! 6 = 115"
    by (simp_all add: no_changes_def str_def)
  show ?case
  proof (cases seg)
    case (Unchanged t)
    show ?thesis
    proof (cases "escapeHtml t")
      case Nil
      with Unchanged Cons show ?thesis by simp
    next
      case (Cons c cs)
      with escapeHtml_no_open [of t] have "c \<noteq> 60" by auto
      with Cons Unchanged nc(1) show ?thesis by (metis append_Cons concat.simps(2) list.inject list.simps(9) render_segment.simps(1))
    qed
  next
    case (Added t)
    have "(span_added (escapeHtml t) @ concat (map render_segment segs)) ! 6 = 99"
      by (simp add: span_added_def str_def)
    with nc(2) Added show ?thesis by auto
  next
    case (Removed t)
    have "(span_removed (escapeHtml t) @ concat (map render_segment segs)) ! 6 = 99"
      by (simp add: span_removed_def str_def)
    with nc(2) Removed show ?thesis by auto
  qed
qed

lemma generateDiff_indicator_iff: "generateDiff a b = no_changes \<longleftrightarrow> a = b"
  by (simp add: generateDiff_def diff_loop_lockstep render_segments_not_indicator)

section \<open>The article rule\<close>

text \<open>
  C9. Rule 6 was to rewrite "an" exactly when the next word starts with a consonant
  letter. Its class \<^verbatim>\<open>[^aeiou]\<close> takes any code unit that is not a vowel letter,
  white space included: in "an  apple", with two spaces, \<^verbatim>\<open>\s+\<close> gives back the
  second space to the class, and the rule rewrites "an" before "apple"; in "an 8" the
  class takes the digit.
\<close>

theorem rule6_fires_before_vowel:
  "grammarCorrect (str ''an  apple'')
   = \<lparr>pass_text = str ''a  apple'',
      pass_changes = [\<lparr>change_type = Grammar, change_original = str ''an  '',
        change_corrected = str ''a  '', change_message = rule_message rule6\<rparr>]\<rparr>
   \<and> grammarCorrect (str ''an 8'')
   = \<lparr>pass_text = str ''a 8'',
      pass_changes = [\<lparr>change_type = Grammar, change_original = str ''an 8'',
        change_corrected = str ''a 8'', change_message = rule_message rule6\<rparr>]\<rparr>"
  by (simp add: grammar_defs regex_defs string_defs unit_defs)

theorem rule6_fires_before_vowel_witness:
  "pass_text (grammarCorrect (str ''an  apple'')) = str ''a  apple''
   \<and> pass_text (grammarCorrect (str ''an 8'')) = str ''a 8''"
  using rule6_fires_before_vowel by simp

text \<open>What the rule does before a consonant letter and before a vowel letter.\<close>

lemma rule6_examples:
  "pass_text (grammarCorrect (str ''an car'')) = str ''a car''"
  "grammarCorrect (str ''an apple'') = \<lparr>pass_text = str ''an apple'', pass_changes = []\<rparr>"
  by (simp_all add: grammar_defs regex_defs string_defs unit_defs)

section \<open>What the matcher accepts\<close>

lemma in_matcher_Class:
  "x \<in> set (matcher (Class P) (pv, r, cap)) \<longleftrightarrow>
   (\<exists>a r'. r = a # r' \<and> P a \<and> x = (Some a, r', cap))"
  by (cases r) auto

lemma in_matcher_Boundary:
  "x \<in> set (matcher Boundary (pv, r, cap)) \<longleftrightarrow>
   word_before pv \<noteq> word_after r \<and> x = (pv, r, cap)"
  by auto

lemma in_matcher_Then:
  "x \<in> set (matcher (Then p q) s) \<longleftrightarrow> (\<exists>y \<in> set (matcher p s). x \<in> set (matcher q y))"
  by auto

lemma in_matcher_Or:
  "x \<in> set (matcher (Or p q) s) \<longleftrightarrow> x \<in> set (matcher p s) \<or> x \<in> set (matcher q s)"
  by auto

lemma prefix_takeWhile:
  "list_all P u \<Longrightarrow> length u \<le> length (takeWhile P (u @ r'))"
  by (induction u) auto

lemma set_matcher_Many1:
  "set (matcher (Many1 P) (pv, r, cap))
   = (\<lambda>k. (Some (r ! (k - 1)), drop k r, cap)) ` {k. 1 \<le> k \<and> k \<le> length (takeWhile P r)}"
proof -
  have "set [1 ..< Suc (length (takeWhile P r))] = {k. 1 \<le> k \<and> k \<le> length (takeWhile P r)}"
    by auto
  then show ?thesis by simp
qed

lemma in_matcher_Many1:
  "x \<in> set (matcher (Many1 P) (pv, r, cap)) \<longleftrightarrow>
   (\<exists>u r'. r = u @ r' \<and> u \<noteq> [] \<and> list_all P u \<and> x = (Some (last u), r', cap))"
proof
  assume "x \<in> set (matcher (Many1 P) (pv, r, cap))"
  then obtain k where k: "1 \<le> k" "k \<le> length (takeWhile P r)"
    and x: "x = (Some (r ! (k - 1)), drop k r, cap)"
    unfolding set_matcher_Many1 by blast
  have kr: "k \<le> length r"
    using k(2) length_takeWhile_le [of P r] by simp
  have "take k r = take k (takeWhile P r @ dropWhile P r)" by simp
  also have "\<dots> = take k (takeWhile P r)" using k(2) by (simp del: takeWhile_dropWhile_id)
  finally have tk: "take k r = take k (takeWhile P r)" .
  have "set (take k (takeWhile P r)) \<subseteq> set (takeWhile P r)" by (rule set_take_subset)
  then have "\<forall>a \<in> set (take k r). P a"
    unfolding tk by (auto dest: set_takeWhileD)
  then have "list_all P (take k r)" by (simp add: list_all_iff)
  moreover have ne: "take k r \<noteq> []" using k(1) kr by auto
  moreover have "last (take k r) = r ! (k - 1)"
  proof -
    have "last (take k r) = take k r ! (length (take k r) - 1)" using ne by (rule last_conv_nth)
    also have "\<dots> = r ! (k - 1)" using k(1) kr by (simp add: min_def)
    finally show ?thesis .
  qed
  ultimately show "\<exists>u r'. r = u @ r' \<and> u \<noteq> [] \<and> list_all P u \<and> x = (Some (last u), r', cap)"
    using x by (intro exI [of _ "take k r"] exI [of _ "drop k r"]) simp
next
  assume "\<exists>u r'. r = u @ r' \<and> u \<noteq> [] \<and> list_all P u \<and> x = (Some (last u), r', cap)"
  then obtain u r' where r: "r = u @ r'" and u: "u \<noteq> []" "list_all P u"
    and x: "x = (Some (last u), r', cap)"
    by blast
  let ?k = "length u"
  have 1: "1 \<le> ?k" using u(1) by (cases u) auto
  have 2: "?k \<le> length (takeWhile P r)"
    unfolding r using u(2) by (rule prefix_takeWhile)
  have 3: "r ! (?k - 1) = last u"
    using u(1) r by (simp add: last_conv_nth nth_append)
  have 4: "drop ?k r = r'" using r by simp
  have "(Some (r ! (?k - 1)), drop ?k r, cap)
      \<in> (\<lambda>k. (Some (r ! (k - 1)), drop k r, cap)) ` {k. 1 \<le> k \<and> k \<le> length (takeWhile P r)}"
    using 1 2 by blast
  then show "x \<in> set (matcher (Many1 P) (pv, r, cap))"
    unfolding set_matcher_Many1 x 3 4 .
qed

lemma matcher_consumes:
  "(pv', r', c') \<in> set (matcher p (pv, r, c)) \<Longrightarrow>
   \<exists>u. r = u @ r' \<and> pv' = (if u = [] then pv else Some (last u))"
proof (induction p arbitrary: pv r c pv' r' c')
  case Empty
  then show ?case by simp
next
  case (Class P)
  then obtain a where "r = a # r'" "pv' = Some a"
    unfolding in_matcher_Class by blast
  then show ?case by (intro exI [of _ "[a]"]) simp
next
  case Boundary
  then have "r' = r" "pv' = pv"
    unfolding in_matcher_Boundary by simp_all
  then show ?case by simp
next
  case (Then p q)
  from Then.prems obtain pv1 r1 c1 where
    1: "(pv1, r1, c1) \<in> set (matcher p (pv, r, c))"
    and 2: "(pv', r', c') \<in> set (matcher q (pv1, r1, c1))"
    unfolding in_matcher_Then by auto
  from Then.IH(1) [OF 1] obtain u1 where
    u1: "r = u1 @ r1" "pv1 = (if u1 = [] then pv else Some (last u1))" by blast
  from Then.IH(2) [OF 2] obtain u2 where
    u2: "r1 = u2 @ r'" "pv' = (if u2 = [] then pv1 else Some (last u2))" by blast
  from u1 u2 show ?case
    by (intro exI [of _ "u1 @ u2"]) simp
next
  case (Or p q)
  from Or.prems have "(pv', r', c') \<in> set (matcher p (pv, r, c))
      \<or> (pv', r', c') \<in> set (matcher q (pv, r, c))"
    unfolding in_matcher_Or .
  then show ?case using Or.IH by blast
next
  case (Many1 P)
  then obtain u where "r = u @ r'" "u \<noteq> []" "pv' = Some (last u)"
    unfolding in_matcher_Many1 by blast
  then show ?case by (intro exI [of _ u]) simp
next
  case (Capture p)
  from Capture.prems obtain cap' where "(pv', r', cap') \<in> set (matcher p (pv, r, c))"
    by auto
  then show ?case by (rule Capture.IH)
qed

lemma in_matcher_Capture:
  "x \<in> set (matcher (Capture p) (pv, r, cap)) \<longleftrightarrow>
   (\<exists>u pv' r' cap'. (pv', r', cap') \<in> set (matcher p (pv, r, cap)) \<and> r = u @ r'
      \<and> x = (pv', r', Some u))"
proof
  assume "x \<in> set (matcher (Capture p) (pv, r, cap))"
  then obtain pv' r' cap' where m: "(pv', r', cap') \<in> set (matcher p (pv, r, cap))"
    and x: "x = (pv', r', Some (take (length r - length r') r))"
    by auto
  from matcher_consumes [OF m] obtain u where "r = u @ r'" by blast
  with m x show "\<exists>u pv' r' cap'. (pv', r', cap') \<in> set (matcher p (pv, r, cap)) \<and> r = u @ r'
      \<and> x = (pv', r', Some u)"
    by auto
next
  assume "\<exists>u pv' r' cap'. (pv', r', cap') \<in> set (matcher p (pv, r, cap)) \<and> r = u @ r'
      \<and> x = (pv', r', Some u)"
  then obtain u pv' r' cap' where m: "(pv', r', cap') \<in> set (matcher p (pv, r, cap))"
    and r: "r = u @ r'" and x: "x = (pv', r', Some u)"
    by blast
  from m have "(pv', r', Some (take (length r - length r') r)) \<in> set (matcher (Capture p) (pv, r, cap))"
    by force
  with r x show "x \<in> set (matcher (Capture p) (pv, r, cap))" by simp
qed

lemma in_matcher_word:
  "cs \<noteq> [] \<Longrightarrow>
   x \<in> set (matcher (word cs) (pv, r, cap)) \<longleftrightarrow>
   (\<exists>h r'. r = h @ r' \<and> map to_upper_unit h = map to_upper_unit (str cs)
      \<and> x = (Some (last h), r', cap))"
proof (induction cs arbitrary: pv r x rule: word.induct)
  case 1
  then show ?case by simp
next
  case (2 c)
  show ?case
  proof
    assume "x \<in> set (matcher (word [c]) (pv, r, cap))"
    then obtain a r' where "r = a # r'" "to_upper_unit a = to_upper_unit (of_char c)"
      "x = (Some a, r', cap)"
      by (auto simp: letter_def in_matcher_Class)
    then show "\<exists>h r'. r = h @ r' \<and> map to_upper_unit h = map to_upper_unit (str [c])
      \<and> x = (Some (last h), r', cap)"
      by (intro exI [of _ "[a]"] exI [of _ r']) (simp add: str_def)
  next
    assume "\<exists>h r'. r = h @ r' \<and> map to_upper_unit h = map to_upper_unit (str [c])
      \<and> x = (Some (last h), r', cap)"
    then obtain h r' where h: "r = h @ r'" "map to_upper_unit h = map to_upper_unit (str [c])"
      "x = (Some (last h), r', cap)" by blast
    from h(2) obtain a where "h = [a]" "to_upper_unit a = to_upper_unit (of_char c)"
      by (cases h) (auto simp: str_def)
    with h show "x \<in> set (matcher (word [c]) (pv, r, cap))"
      by (simp add: letter_def)
  qed
next
  case (3 c d cs)
  have IH: "\<And>pv r x. x \<in> set (matcher (word (d # cs)) (pv, r, cap)) \<longleftrightarrow>
   (\<exists>h r'. r = h @ r' \<and> map to_upper_unit h = map to_upper_unit (str (d # cs))
      \<and> x = (Some (last h), r', cap))"
    using "3.IH" by simp
  show ?case
  proof
    assume "x \<in> set (matcher (word (c # d # cs)) (pv, r, cap))"
    then obtain a r1 where a: "r = a # r1" "to_upper_unit a = to_upper_unit (of_char c)"
      and x: "x \<in> set (matcher (word (d # cs)) (Some a, r1, cap))"
      by (auto simp: letter_def in_matcher_Class in_matcher_Then simp del: matcher.simps)
    from x obtain h r' where h: "r1 = h @ r'"
      "map to_upper_unit h = map to_upper_unit (str (d # cs))" "x = (Some (last h), r', cap)"
      unfolding IH by blast
    from h(2) have "h \<noteq> []" by (auto simp: str_def)
    with a h show "\<exists>h r'. r = h @ r' \<and> map to_upper_unit h = map to_upper_unit (str (c # d # cs))
      \<and> x = (Some (last h), r', cap)"
      by (intro exI [of _ "a # h"] exI [of _ r']) (simp add: str_def)
  next
    assume "\<exists>h r'. r = h @ r' \<and> map to_upper_unit h = map to_upper_unit (str (c # d # cs))
      \<and> x = (Some (last h), r', cap)"
    then obtain h r' where h: "r = h @ r'"
      "map to_upper_unit h = map to_upper_unit (str (c # d # cs))" "x = (Some (last h), r', cap)"
      by blast
    from h(2) obtain a h2 where h2: "h = a # h2" "to_upper_unit a = to_upper_unit (of_char c)"
      "map to_upper_unit h2 = map to_upper_unit (str (d # cs))"
      by (cases h) (auto simp: str_def)
    from h2(3) have "h2 \<noteq> []" by (auto simp: str_def)
    with h h2 have "x \<in> set (matcher (word (d # cs)) (Some a, h2 @ r', cap))"
      unfolding IH by auto
    with h h2 show "x \<in> set (matcher (word (c # d # cs)) (pv, r, cap))"
      by (auto simp: letter_def in_matcher_Class in_matcher_Then simp del: matcher.simps)
  qed
qed

lemma in_matcher_alternatives:
  "css \<noteq> [] \<Longrightarrow> [] \<notin> set css \<Longrightarrow>
   x \<in> set (matcher (alternatives css) (pv, r, cap)) \<longleftrightarrow>
   (\<exists>h r'. r = h @ r' \<and> (\<exists>k \<in> set css. map to_upper_unit h = map to_upper_unit (str k))
      \<and> x = (Some (last h), r', cap))"
proof (induction css rule: alternatives.induct)
  case 1
  then show ?case by simp
next
  case (2 w)
  then have "w \<noteq> []" by auto
  then show ?case by (simp add: in_matcher_word del: matcher.simps)
next
  case (3 w v ws)
  then have w: "w \<noteq> []" and IH: "x \<in> set (matcher (alternatives (v # ws)) (pv, r, cap)) \<longleftrightarrow>
   (\<exists>h r'. r = h @ r' \<and> (\<exists>k \<in> set (v # ws). map to_upper_unit h = map to_upper_unit (str k))
      \<and> x = (Some (last h), r', cap))"
    by auto
  have "x \<in> set (matcher (alternatives (w # v # ws)) (pv, r, cap)) \<longleftrightarrow>
      x \<in> set (matcher (word w) (pv, r, cap)) \<or> x \<in> set (matcher (alternatives (v # ws)) (pv, r, cap))"
    by simp
  also have "\<dots> \<longleftrightarrow> (\<exists>h r'. r = h @ r' \<and> map to_upper_unit h = map to_upper_unit (str w)
      \<and> x = (Some (last h), r', cap))
    \<or> (\<exists>h r'. r = h @ r' \<and> (\<exists>k \<in> set (v # ws). map to_upper_unit h = map to_upper_unit (str k))
      \<and> x = (Some (last h), r', cap))"
    unfolding IH in_matcher_word [OF w] ..
  also have "\<dots> \<longleftrightarrow> (\<exists>h r'. r = h @ r'
      \<and> (\<exists>k \<in> set (w # v # ws). map to_upper_unit h = map to_upper_unit (str k))
      \<and> x = (Some (last h), r', cap))"
    by (simp only: set_simps bex_simps) blast
  finally show ?case .
qed

lemma in_matcher_head_word:
  "cs \<noteq> [] \<Longrightarrow>
   (pv1, r1, c1) \<in> set (matcher (word cs) (pv, r, None)) \<longleftrightarrow>
   (\<exists>h. r = h @ r1 \<and> map to_upper_unit h = map to_upper_unit (str cs)
      \<and> pv1 = Some (last h) \<and> c1 = None)"
  unfolding in_matcher_word by auto

lemma in_matcher_head_group:
  assumes "css \<noteq> []" "[] \<notin> set css"
  shows "(pv1, r1, c1) \<in> set (matcher (Capture (alternatives css)) (pv, r, None)) \<longleftrightarrow>
   (\<exists>h. r = h @ r1 \<and> (\<exists>k \<in> set css. map to_upper_unit h = map to_upper_unit (str k))
      \<and> pv1 = Some (last h) \<and> c1 = Some h)"
proof
  assume "(pv1, r1, c1) \<in> set (matcher (Capture (alternatives css)) (pv, r, None))"
  then obtain u pv' r' cap' where
    m: "(pv', r', cap') \<in> set (matcher (alternatives css) (pv, r, None))"
    and u: "r = u @ r'" and x: "(pv1, r1, c1) = (pv', r', Some u)"
    unfolding in_matcher_Capture by blast
  from m obtain h r2 where h: "r = h @ r2"
    "\<exists>k \<in> set css. map to_upper_unit h = map to_upper_unit (str k)"
    "(pv', r', cap') = (Some (last h), r2, None)"
    unfolding in_matcher_alternatives [OF assms] by blast
  from h(1,3) u have "u = h" by simp
  with h x u show "\<exists>h. r = h @ r1
      \<and> (\<exists>k \<in> set css. map to_upper_unit h = map to_upper_unit (str k))
      \<and> pv1 = Some (last h) \<and> c1 = Some h"
    by (intro exI [of _ h]) simp
next
  assume "\<exists>h. r = h @ r1 \<and> (\<exists>k \<in> set css. map to_upper_unit h = map to_upper_unit (str k))
      \<and> pv1 = Some (last h) \<and> c1 = Some h"
  then obtain h where h: "r = h @ r1"
    "\<exists>k \<in> set css. map to_upper_unit h = map to_upper_unit (str k)"
    "pv1 = Some (last h)" "c1 = Some h"
    by blast
  then have "(Some (last h), r1, None) \<in> set (matcher (alternatives css) (pv, r, None))"
    unfolding in_matcher_alternatives [OF assms] by blast
  with h show "(pv1, r1, c1) \<in> set (matcher (Capture (alternatives css)) (pv, r, None))"
    unfolding in_matcher_Capture by blast
qed

lemma in_matcher_tail_word:
  assumes cs: "cs \<noteq> []"
  shows "x \<in> set (matcher (Then (word cs) Boundary) (pv1, rest, c1)) \<longleftrightarrow>
   (\<exists>t r'. rest = t @ r' \<and> map to_upper_unit t = map to_upper_unit (str cs)
      \<and> word_before (Some (last t)) \<noteq> word_after r' \<and> x = (Some (last t), r', c1))"
proof
  assume "x \<in> set (matcher (Then (word cs) Boundary) (pv1, rest, c1))"
  then obtain y where y: "y \<in> set (matcher (word cs) (pv1, rest, c1))"
    and x: "x \<in> set (matcher Boundary y)"
    unfolding in_matcher_Then by blast
  from y obtain t r' where t: "rest = t @ r'"
    "map to_upper_unit t = map to_upper_unit (str cs)" "y = (Some (last t), r', c1)"
    unfolding in_matcher_word [OF cs] by blast
  from x have "word_before (Some (last t)) \<noteq> word_after r'" "x = (Some (last t), r', c1)"
    unfolding t(3) in_matcher_Boundary by simp_all
  with t show "\<exists>t r'. rest = t @ r' \<and> map to_upper_unit t = map to_upper_unit (str cs)
      \<and> word_before (Some (last t)) \<noteq> word_after r' \<and> x = (Some (last t), r', c1)"
    by blast
next
  assume "\<exists>t r'. rest = t @ r' \<and> map to_upper_unit t = map to_upper_unit (str cs)
      \<and> word_before (Some (last t)) \<noteq> word_after r' \<and> x = (Some (last t), r', c1)"
  then obtain t r' where t: "rest = t @ r'"
    "map to_upper_unit t = map to_upper_unit (str cs)"
    and b: "word_before (Some (last t)) \<noteq> word_after r'" and x: "x = (Some (last t), r', c1)"
    by blast
  from t have "(Some (last t), r', c1) \<in> set (matcher (word cs) (pv1, rest, c1))"
    unfolding in_matcher_word [OF cs] by blast
  moreover from b x have "x \<in> set (matcher Boundary (Some (last t), r', c1))"
    unfolding in_matcher_Boundary by simp
  ultimately show "x \<in> set (matcher (Then (word cs) Boundary) (pv1, rest, c1))"
    unfolding in_matcher_Then by blast
qed

lemma in_matcher_tail_class:
  "x \<in> set (matcher (Capture (Class P)) (pv1, rest, c1)) \<longleftrightarrow>
   (\<exists>c r'. rest = c # r' \<and> P c \<and> x = (Some c, r', Some [c]))"
  unfolding in_matcher_Capture in_matcher_Class by auto

lemma in_matcher_rule_form:
  "x \<in> set (matcher (Then Boundary (Then H (Then (Many1 is_space_unit) T))) (pv, r, None)) \<longleftrightarrow>
   word_before pv \<noteq> word_after r
   \<and> (\<exists>pv1 ws rest c1. (pv1, ws @ rest, c1) \<in> set (matcher H (pv, r, None))
         \<and> ws \<noteq> [] \<and> list_all is_space_unit ws
         \<and> x \<in> set (matcher T (Some (last ws), rest, c1)))"
proof
  assume "x \<in> set (matcher (Then Boundary (Then H (Then (Many1 is_space_unit) T))) (pv, r, None))"
  then obtain y where y: "y \<in> set (matcher Boundary (pv, r, None))"
    and x: "x \<in> set (matcher (Then H (Then (Many1 is_space_unit) T)) y)"
    unfolding in_matcher_Then [of x Boundary] by blast
  from y have b: "word_before pv \<noteq> word_after r" and y': "y = (pv, r, None)"
    unfolding in_matcher_Boundary by simp_all
  from x obtain pv1 r1 c1 where
    h: "(pv1, r1, c1) \<in> set (matcher H (pv, r, None))"
    and x1: "x \<in> set (matcher (Then (Many1 is_space_unit) T) (pv1, r1, c1))"
    unfolding y' in_matcher_Then [of x H] by auto
  from x1 obtain z where z: "z \<in> set (matcher (Many1 is_space_unit) (pv1, r1, c1))"
    and x2: "x \<in> set (matcher T z)"
    unfolding in_matcher_Then [of x "Many1 is_space_unit"] by blast
  from z obtain ws rest where ws: "r1 = ws @ rest" "ws \<noteq> []" "list_all is_space_unit ws"
    "z = (Some (last ws), rest, c1)"
    unfolding in_matcher_Many1 by blast
  from b h ws x2 show "word_before pv \<noteq> word_after r
   \<and> (\<exists>pv1 ws rest c1. (pv1, ws @ rest, c1) \<in> set (matcher H (pv, r, None))
         \<and> ws \<noteq> [] \<and> list_all is_space_unit ws
         \<and> x \<in> set (matcher T (Some (last ws), rest, c1)))"
    by blast
next
  assume "word_before pv \<noteq> word_after r
   \<and> (\<exists>pv1 ws rest c1. (pv1, ws @ rest, c1) \<in> set (matcher H (pv, r, None))
         \<and> ws \<noteq> [] \<and> list_all is_space_unit ws
         \<and> x \<in> set (matcher T (Some (last ws), rest, c1)))"
  then obtain pv1 ws rest c1 where b: "word_before pv \<noteq> word_after r"
    and h: "(pv1, ws @ rest, c1) \<in> set (matcher H (pv, r, None))"
    and ws: "ws \<noteq> []" "list_all is_space_unit ws"
    and x: "x \<in> set (matcher T (Some (last ws), rest, c1))"
    by blast
  from ws have "(Some (last ws), rest, c1) \<in> set (matcher (Many1 is_space_unit) (pv1, ws @ rest, c1))"
    unfolding in_matcher_Many1 by blast
  with x have "x \<in> set (matcher (Then (Many1 is_space_unit) T) (pv1, ws @ rest, c1))"
    unfolding in_matcher_Then [of x "Many1 is_space_unit"] by blast
  with h have "x \<in> set (matcher (Then H (Then (Many1 is_space_unit) T)) (pv, r, None))"
    unfolding in_matcher_Then [of x H] by blast
  moreover from b have "(pv, r, None) \<in> set (matcher Boundary (pv, r, None))"
    unfolding in_matcher_Boundary by simp
  ultimately show "x \<in> set (matcher (Then Boundary (Then H (Then (Many1 is_space_unit) T))) (pv, r, None))"
    unfolding in_matcher_Then [of x Boundary] by blast
qed

lemma ci_letter:
  "to_upper_unit a = to_upper_unit b \<Longrightarrow> is_letter_unit b \<Longrightarrow>
   is_letter_unit a \<and> is_word_unit a \<and> \<not> is_space_unit a"
  by (auto simp: unit_defs split: if_splits)

lemma ci_word:
  assumes "map to_upper_unit h = map to_upper_unit k" "k \<noteq> []" "list_all is_letter_unit k"
  shows "h \<noteq> [] \<and> is_word_unit (hd h) \<and> is_word_unit (last h) \<and> list_all is_letter_unit h"
proof -
  from assms(1) have len: "length h = length k"
    by (rule map_eq_imp_length_eq)
  with assms(2) have ne: "h \<noteq> []" by auto
  have all: "list_all is_letter_unit h"
    unfolding list_all_length
  proof (intro allI impI)
    fix i assume i: "i < length h"
    with assms(1) len have "to_upper_unit (h ! i) = to_upper_unit (k ! i)"
      by (metis nth_map)
    moreover from i len assms(3) have "is_letter_unit (k ! i)"
      by (simp add: list_all_length)
    ultimately show "is_letter_unit (h ! i)" using ci_letter by blast
  qed
  have w: "is_letter_unit a \<Longrightarrow> is_word_unit a" for a
    by (auto simp: unit_defs)
  from ne all have "is_letter_unit (hd h)" "is_letter_unit (last h)"
    by (simp_all add: list_all_iff)
  with ne all w show ?thesis by blast
qed

lemma word_after_append: "h \<noteq> [] \<Longrightarrow> word_after (h @ r) = is_word_unit (hd h)"
  by (cases h) (simp_all add: word_after_def)

lemma word_before_Some: "word_before (Some c) = is_word_unit c"
  by (simp add: word_before_def)

lemma str_letters_nonempty: "cs \<noteq> [] \<Longrightarrow> str cs \<noteq> []"
  by (simp add: str_def)

text \<open>The matches of \<^verbatim>\<open>/\b(w1|...|wn)\s+w\b/gi\<close>, the form of rules 1, 2 and 4.\<close>

lemma in_matcher_group_word:
  assumes css: "css \<noteq> []" "[] \<notin> set css" "\<forall>k \<in> set css. list_all is_letter_unit (str k)"
    and cs: "cs \<noteq> []" "list_all is_letter_unit (str cs)"
  shows "(pv', r', c') \<in> set (matcher (Then Boundary (Then (Capture (alternatives css))
            (Then (Many1 is_space_unit) (Then (word cs) Boundary)))) (pv, r, None)) \<longleftrightarrow>
   (\<exists>h ws t. r = h @ ws @ t @ r'
      \<and> (\<exists>k \<in> set css. map to_upper_unit h = map to_upper_unit (str k))
      \<and> ws \<noteq> [] \<and> list_all is_space_unit ws
      \<and> map to_upper_unit t = map to_upper_unit (str cs)
      \<and> \<not> word_before pv \<and> \<not> word_after r' \<and> pv' = Some (last t) \<and> c' = Some h)"
proof
  assume "(pv', r', c') \<in> set (matcher (Then Boundary (Then (Capture (alternatives css))
            (Then (Many1 is_space_unit) (Then (word cs) Boundary)))) (pv, r, None))"
  then obtain pv1 ws rest c1 where b: "word_before pv \<noteq> word_after r"
    and hd: "(pv1, ws @ rest, c1) \<in> set (matcher (Capture (alternatives css)) (pv, r, None))"
    and ws: "ws \<noteq> []" "list_all is_space_unit ws"
    and tl: "(pv', r', c') \<in> set (matcher (Then (word cs) Boundary) (Some (last ws), rest, c1))"
    unfolding in_matcher_rule_form by blast
  from hd obtain h where h: "r = h @ ws @ rest"
    and hk: "\<exists>k \<in> set css. map to_upper_unit h = map to_upper_unit (str k)"
    and c1: "c1 = Some h"
    unfolding in_matcher_head_group [OF css(1,2)] by blast
  from tl obtain t where t: "rest = t @ r'"
    "map to_upper_unit t = map to_upper_unit (str cs)"
    and b2: "word_before (Some (last t)) \<noteq> word_after r'"
    and x: "pv' = Some (last t)" "c' = c1"
    unfolding in_matcher_tail_word [OF cs(1)] by blast
  from hk css obtain k where k: "k \<in> set css" "map to_upper_unit h = map to_upper_unit (str k)"
    "str k \<noteq> []" "list_all is_letter_unit (str k)"
    by (metis str_letters_nonempty)
  from ci_word [OF k(2,3,4)] have hw: "h \<noteq> []" "is_word_unit (hd h)" by simp_all
  from ci_word [OF t(2) str_letters_nonempty [OF cs(1)] cs(2)] have tw: "is_word_unit (last t)"
    by simp
  from b hw h have "\<not> word_before pv" by (simp add: word_after_append)
  moreover from b2 tw have "\<not> word_after r'" by (simp add: word_before_Some)
  ultimately show "\<exists>h ws t. r = h @ ws @ t @ r'
      \<and> (\<exists>k \<in> set css. map to_upper_unit h = map to_upper_unit (str k))
      \<and> ws \<noteq> [] \<and> list_all is_space_unit ws
      \<and> map to_upper_unit t = map to_upper_unit (str cs)
      \<and> \<not> word_before pv \<and> \<not> word_after r' \<and> pv' = Some (last t) \<and> c' = Some h"
    using h hk ws t x c1 by blast
next
  assume "\<exists>h ws t. r = h @ ws @ t @ r'
      \<and> (\<exists>k \<in> set css. map to_upper_unit h = map to_upper_unit (str k))
      \<and> ws \<noteq> [] \<and> list_all is_space_unit ws
      \<and> map to_upper_unit t = map to_upper_unit (str cs)
      \<and> \<not> word_before pv \<and> \<not> word_after r' \<and> pv' = Some (last t) \<and> c' = Some h"
  then obtain h ws t where h: "r = h @ ws @ t @ r'"
    and hk: "\<exists>k \<in> set css. map to_upper_unit h = map to_upper_unit (str k)"
    and ws: "ws \<noteq> []" "list_all is_space_unit ws"
    and t: "map to_upper_unit t = map to_upper_unit (str cs)"
    and b: "\<not> word_before pv" "\<not> word_after r'"
    and x: "pv' = Some (last t)" "c' = Some h"
    by blast
  from hk css obtain k where k: "k \<in> set css" "map to_upper_unit h = map to_upper_unit (str k)"
    "str k \<noteq> []" "list_all is_letter_unit (str k)"
    by (metis str_letters_nonempty)
  from ci_word [OF k(2,3,4)] have hw: "h \<noteq> []" "is_word_unit (hd h)" by simp_all
  from ci_word [OF t str_letters_nonempty [OF cs(1)] cs(2)] have tw: "is_word_unit (last t)"
    by simp
  have 1: "word_before pv \<noteq> word_after r"
    using b(1) hw h by (simp add: word_after_append)
  have 2: "(Some (last h), ws @ t @ r', Some h)
      \<in> set (matcher (Capture (alternatives css)) (pv, r, None))"
    unfolding in_matcher_head_group [OF css(1,2)] using h hk by blast
  have 3: "(pv', r', c') \<in> set (matcher (Then (word cs) Boundary) (Some (last ws), t @ r', Some h))"
    unfolding in_matcher_tail_word [OF cs(1)] using t b(2) tw x
    by (intro exI [of _ t] exI [of _ r']) (simp add: word_before_Some)
  from 1 2 3 ws show "(pv', r', c') \<in> set (matcher (Then Boundary (Then (Capture (alternatives css))
            (Then (Many1 is_space_unit) (Then (word cs) Boundary)))) (pv, r, None))"
    unfolding in_matcher_rule_form by blast
qed

text \<open>The matches of \<^verbatim>\<open>/\bv\s+w\b/gi\<close>, the form of rule 3.\<close>

lemma in_matcher_word_word:
  assumes hs: "hs \<noteq> []" "list_all is_letter_unit (str hs)"
    and cs: "cs \<noteq> []" "list_all is_letter_unit (str cs)"
  shows "(pv', r', c') \<in> set (matcher (Then Boundary (Then (word hs)
            (Then (Many1 is_space_unit) (Then (word cs) Boundary)))) (pv, r, None)) \<longleftrightarrow>
   (\<exists>h ws t. r = h @ ws @ t @ r'
      \<and> map to_upper_unit h = map to_upper_unit (str hs)
      \<and> ws \<noteq> [] \<and> list_all is_space_unit ws
      \<and> map to_upper_unit t = map to_upper_unit (str cs)
      \<and> \<not> word_before pv \<and> \<not> word_after r' \<and> pv' = Some (last t) \<and> c' = None)"
proof
  assume "(pv', r', c') \<in> set (matcher (Then Boundary (Then (word hs)
            (Then (Many1 is_space_unit) (Then (word cs) Boundary)))) (pv, r, None))"
  then obtain pv1 ws rest c1 where b: "word_before pv \<noteq> word_after r"
    and hd: "(pv1, ws @ rest, c1) \<in> set (matcher (word hs) (pv, r, None))"
    and ws: "ws \<noteq> []" "list_all is_space_unit ws"
    and tl: "(pv', r', c') \<in> set (matcher (Then (word cs) Boundary) (Some (last ws), rest, c1))"
    unfolding in_matcher_rule_form by blast
  from hd obtain h where h: "r = h @ ws @ rest"
    and hk: "map to_upper_unit h = map to_upper_unit (str hs)"
    and c1: "c1 = None"
    unfolding in_matcher_head_word [OF hs(1)] by blast
  from tl obtain t where t: "rest = t @ r'"
    "map to_upper_unit t = map to_upper_unit (str cs)"
    and b2: "word_before (Some (last t)) \<noteq> word_after r'"
    and x: "pv' = Some (last t)" "c' = c1"
    unfolding in_matcher_tail_word [OF cs(1)] by blast
  from ci_word [OF hk str_letters_nonempty [OF hs(1)] hs(2)]
  have hw: "h \<noteq> []" "is_word_unit (hd h)" by simp_all
  from ci_word [OF t(2) str_letters_nonempty [OF cs(1)] cs(2)] have tw: "is_word_unit (last t)"
    by simp
  from b hw h have "\<not> word_before pv" by (simp add: word_after_append)
  moreover from b2 tw have "\<not> word_after r'" by (simp add: word_before_Some)
  ultimately show "\<exists>h ws t. r = h @ ws @ t @ r'
      \<and> map to_upper_unit h = map to_upper_unit (str hs)
      \<and> ws \<noteq> [] \<and> list_all is_space_unit ws
      \<and> map to_upper_unit t = map to_upper_unit (str cs)
      \<and> \<not> word_before pv \<and> \<not> word_after r' \<and> pv' = Some (last t) \<and> c' = None"
    using h hk ws t x c1 by blast
next
  assume "\<exists>h ws t. r = h @ ws @ t @ r'
      \<and> map to_upper_unit h = map to_upper_unit (str hs)
      \<and> ws \<noteq> [] \<and> list_all is_space_unit ws
      \<and> map to_upper_unit t = map to_upper_unit (str cs)
      \<and> \<not> word_before pv \<and> \<not> word_after r' \<and> pv' = Some (last t) \<and> c' = None"
  then obtain h ws t where h: "r = h @ ws @ t @ r'"
    and hk: "map to_upper_unit h = map to_upper_unit (str hs)"
    and ws: "ws \<noteq> []" "list_all is_space_unit ws"
    and t: "map to_upper_unit t = map to_upper_unit (str cs)"
    and b: "\<not> word_before pv" "\<not> word_after r'"
    and x: "pv' = Some (last t)" "c' = None"
    by blast
  from ci_word [OF hk str_letters_nonempty [OF hs(1)] hs(2)]
  have hw: "h \<noteq> []" "is_word_unit (hd h)" by simp_all
  from ci_word [OF t str_letters_nonempty [OF cs(1)] cs(2)] have tw: "is_word_unit (last t)"
    by simp
  have 1: "word_before pv \<noteq> word_after r"
    using b(1) hw h by (simp add: word_after_append)
  have 2: "(Some (last h), ws @ t @ r', None) \<in> set (matcher (word hs) (pv, r, None))"
    unfolding in_matcher_head_word [OF hs(1)] using h hk by blast
  have 3: "(pv', r', c') \<in> set (matcher (Then (word cs) Boundary) (Some (last ws), t @ r', None))"
    unfolding in_matcher_tail_word [OF cs(1)] using t b(2) tw x
    by (intro exI [of _ t] exI [of _ r']) (simp add: word_before_Some)
  from 1 2 3 ws show "(pv', r', c') \<in> set (matcher (Then Boundary (Then (word hs)
            (Then (Many1 is_space_unit) (Then (word cs) Boundary)))) (pv, r, None))"
    unfolding in_matcher_rule_form by blast
qed

text \<open>The matches of \<^verbatim>\<open>/\bv\s+([...])/gi\<close>, the form of rules 5 and 6.\<close>

lemma in_matcher_word_class:
  assumes hs: "hs \<noteq> []" "list_all is_letter_unit (str hs)"
  shows "(pv', r', c') \<in> set (matcher (Then Boundary (Then (word hs)
            (Then (Many1 is_space_unit) (Capture (Class P))))) (pv, r, None)) \<longleftrightarrow>
   (\<exists>h ws c. r = h @ ws @ c # r'
      \<and> map to_upper_unit h = map to_upper_unit (str hs)
      \<and> ws \<noteq> [] \<and> list_all is_space_unit ws \<and> P c
      \<and> \<not> word_before pv \<and> pv' = Some c \<and> c' = Some [c])"
proof
  assume "(pv', r', c') \<in> set (matcher (Then Boundary (Then (word hs)
            (Then (Many1 is_space_unit) (Capture (Class P))))) (pv, r, None))"
  then obtain pv1 ws rest c1 where b: "word_before pv \<noteq> word_after r"
    and hd: "(pv1, ws @ rest, c1) \<in> set (matcher (word hs) (pv, r, None))"
    and ws: "ws \<noteq> []" "list_all is_space_unit ws"
    and tl: "(pv', r', c') \<in> set (matcher (Capture (Class P)) (Some (last ws), rest, c1))"
    unfolding in_matcher_rule_form by blast
  from hd obtain h where h: "r = h @ ws @ rest"
    and hk: "map to_upper_unit h = map to_upper_unit (str hs)"
    unfolding in_matcher_head_word [OF hs(1)] by blast
  from tl obtain c where c: "rest = c # r'" "P c" "pv' = Some c" "c' = Some [c]"
    unfolding in_matcher_tail_class by blast
  from ci_word [OF hk str_letters_nonempty [OF hs(1)] hs(2)]
  have hw: "h \<noteq> []" "is_word_unit (hd h)" by simp_all
  from b hw h have "\<not> word_before pv" by (simp add: word_after_append)
  then show "\<exists>h ws c. r = h @ ws @ c # r'
      \<and> map to_upper_unit h = map to_upper_unit (str hs)
      \<and> ws \<noteq> [] \<and> list_all is_space_unit ws \<and> P c
      \<and> \<not> word_before pv \<and> pv' = Some c \<and> c' = Some [c]"
    using h hk ws c by blast
next
  assume "\<exists>h ws c. r = h @ ws @ c # r'
      \<and> map to_upper_unit h = map to_upper_unit (str hs)
      \<and> ws \<noteq> [] \<and> list_all is_space_unit ws \<and> P c
      \<and> \<not> word_before pv \<and> pv' = Some c \<and> c' = Some [c]"
  then obtain h ws c where h: "r = h @ ws @ c # r'"
    and hk: "map to_upper_unit h = map to_upper_unit (str hs)"
    and ws: "ws \<noteq> []" "list_all is_space_unit ws"
    and c: "P c" "pv' = Some c" "c' = Some [c]"
    and b: "\<not> word_before pv"
    by blast
  from ci_word [OF hk str_letters_nonempty [OF hs(1)] hs(2)]
  have hw: "h \<noteq> []" "is_word_unit (hd h)" by simp_all
  have 1: "word_before pv \<noteq> word_after r"
    using b hw h by (simp add: word_after_append)
  have 2: "(Some (last h), ws @ c # r', None) \<in> set (matcher (word hs) (pv, r, None))"
    unfolding in_matcher_head_word [OF hs(1)] using h hk by blast
  have 3: "(pv', r', c') \<in> set (matcher (Capture (Class P)) (Some (last ws), c # r', None))"
    unfolding in_matcher_tail_class using c by blast
  from 1 2 3 ws show "(pv', r', c') \<in> set (matcher (Then Boundary (Then (word hs)
            (Then (Many1 is_space_unit) (Capture (Class P))))) (pv, r, None))"
    unfolding in_matcher_rule_form by blast
qed

section \<open>Matches and replacements\<close>

lemma exec_at_SomeD:
  assumes "exec_at p pv r = Some m"
  shows "\<exists>pv' r' c'. (pv', r', c') \<in> set (matcher p (pv, r, None)) \<and> r = matched m @ r'
     \<and> remainder m = r' \<and> group1 m = c' \<and> last_unit m = pv'"
proof -
  from assms obtain pv' r' c' others where l: "matcher p (pv, r, None) = (pv', r', c') # others"
    and m: "m = \<lparr>matched = take (length r - length r') r, group1 = c', last_unit = pv',
      remainder = r'\<rparr>"
    by (auto simp: exec_at_def split: list.splits)
  from l have mem: "(pv', r', c') \<in> set (matcher p (pv, r, None))" by simp
  from matcher_consumes [OF mem] obtain u where "r = u @ r'" by blast
  with m mem show ?thesis by auto
qed

lemma exec_at_exists:
  "x \<in> set (matcher p (pv, r, None)) \<Longrightarrow> \<exists>m. exec_at p pv r = Some m"
  by (cases "matcher p (pv, r, None)") (auto simp: exec_at_def)

lemma matchAll_from_exec:
  "m \<in> set (matchAll_from p pv r) \<Longrightarrow> \<exists>pv' r'. exec_at p pv' r' = Some m"
proof (induction p pv r rule: matchAll_from.induct)
  case (1 p pv r)
  show ?case
  proof (cases "exec_at p pv r")
    case None
    with "1.prems" obtain c r' where r: "r = c # r'" and "m \<in> set (matchAll_from p (Some c) r')"
      by (subst (asm) matchAll_from.simps) (auto split: list.splits)
    with "1.IH"(1) [OF None r] show ?thesis by blast
  next
    case (Some m0)
    show ?thesis
    proof (cases "m = m0")
      case True
      with Some show ?thesis by blast
    next
      case False
      show ?thesis
      proof (cases "length (remainder m0) < length r")
        case True
        with "1.prems" Some False have "m \<in> set (matchAll_from p (last_unit m0) (remainder m0))"
          by (subst (asm) matchAll_from.simps) simp
        with "1.IH"(2) [OF Some True] show ?thesis by blast
      next
        case nl: False
        with "1.prems" Some False obtain c r' where r: "r = c # r'"
          and "m \<in> set (matchAll_from p (Some c) r')"
          by (subst (asm) matchAll_from.simps) (auto split: list.splits)
        with "1.IH"(3) [OF Some nl r] show ?thesis by blast
      qed
    qed
  qed
qed

text \<open>
  A pattern whose matches can be found again in the matched text alone, and whose
  replacement differs from the matched text at a place both have: replacing in the
  matched text alone changes it.
\<close>

lemma replace_matched_differs:
  assumes iso: "\<And>pv u r' pv' c'. (pv', r', c') \<in> set (matcher p (pv, u @ r', None)) \<Longrightarrow>
      (pv', [], c') \<in> set (matcher p (None, u, None))"
    and diff: "\<And>pv u r' pv' c' m X Y. (pv', r', c') \<in> set (matcher p (pv, u @ r', None)) \<Longrightarrow>
      group1 m = c' \<Longrightarrow> u @ X \<noteq> expand t m @ Y"
    and ex: "exec_at p pv r = Some m"
  shows "replace p t (matched m) \<noteq> matched m"
proof -
  from exec_at_SomeD [OF ex] obtain pv' r' c' where
    mem: "(pv', r', c') \<in> set (matcher p (pv, matched m @ r', None))"
    by auto
  from exec_at_exists [OF iso [OF mem]] obtain m0 where m0: "exec_at p None (matched m) = Some m0"
    by blast
  from exec_at_SomeD [OF m0] obtain pv0 r0 c0 where
    mem0: "(pv0, r0, c0) \<in> set (matcher p (None, matched m, None))"
    and u0: "matched m = matched m0 @ r0" and g0: "group1 m0 = c0"
    by auto
  from mem0 u0 have mem0': "(pv0, r0, c0) \<in> set (matcher p (None, matched m0 @ r0, None))"
    by simp
  have "\<exists>Y. replace p t (matched m) = expand t m0 @ Y"
    unfolding replace_def by (subst replace_from.simps) (simp add: m0)
  then obtain Y where "replace p t (matched m) = expand t m0 @ Y" ..
  moreover from diff [OF mem0' g0] have "matched m0 @ r0 \<noteq> expand t m0 @ Y" .
  ultimately show ?thesis using u0 by simp
qed

lemma tail_mismatch:
  assumes ws: "ws \<noteq> []" "list_all is_space_unit ws"
    and t: "map to_upper_unit t = map to_upper_unit k"
    and i: "i < length k" "i < length lit" "to_upper_unit (lit ! i) \<noteq> to_upper_unit (k ! i)"
    and ns: "\<not> is_space_unit (hd lit)"
  shows "ws @ t @ X \<noteq> 32 # lit @ Y"
proof
  assume eq: "ws @ t @ X = 32 # lit @ Y"
  from ws(1) obtain w ws' where w: "ws = w # ws'" by (cases ws) auto
  from i(2) obtain l lit' where l: "lit = l # lit'" by (cases lit) auto
  from eq w have eq': "ws' @ t @ X = lit @ Y" by simp
  show False
  proof (cases ws')
    case Nil
    from t have len: "length t = length k" by (rule map_eq_imp_length_eq)
    from eq' Nil have "(t @ X) ! i = (lit @ Y) ! i" by simp
    with i len have "t ! i = lit ! i" by (simp add: nth_append)
    moreover from t i(1) len have "to_upper_unit (t ! i) = to_upper_unit (k ! i)"
      by (metis nth_map)
    ultimately show False using i(3) by simp
  next
    case (Cons w2 ws'')
    with eq' l have "w2 = l" by simp
    moreover from ws(2) w Cons have "is_space_unit w2" by simp
    ultimately show False using ns l by simp
  qed
qed

lemma group_word_isolated:
  assumes css: "css \<noteq> []" "[] \<notin> set css" "\<forall>k \<in> set css. list_all is_letter_unit (str k)"
    and cs: "cs \<noteq> []" "list_all is_letter_unit (str cs)"
    and mem: "(pv', r', c') \<in> set (matcher (Then Boundary (Then (Capture (alternatives css))
            (Then (Many1 is_space_unit) (Then (word cs) Boundary)))) (pv, u @ r', None))"
  shows "(pv', [], c') \<in> set (matcher (Then Boundary (Then (Capture (alternatives css))
            (Then (Many1 is_space_unit) (Then (word cs) Boundary)))) (None, u, None))"
proof -
  from mem obtain h ws t where "u @ r' = h @ ws @ t @ r'"
    and rest: "\<exists>k \<in> set css. map to_upper_unit h = map to_upper_unit (str k)"
      "ws \<noteq> []" "list_all is_space_unit ws" "map to_upper_unit t = map to_upper_unit (str cs)"
      "pv' = Some (last t)" "c' = Some h"
    unfolding in_matcher_group_word [OF css cs] by blast
  then have "u = h @ ws @ t @ []" by simp
  with rest show ?thesis
    unfolding in_matcher_group_word [OF css cs]
    by (intro exI [of _ h] exI [of _ ws] exI [of _ t]) (simp add: word_before_def word_after_def)
qed

lemma word_word_isolated:
  assumes hs: "hs \<noteq> []" "list_all is_letter_unit (str hs)"
    and cs: "cs \<noteq> []" "list_all is_letter_unit (str cs)"
    and mem: "(pv', r', c') \<in> set (matcher (Then Boundary (Then (word hs)
            (Then (Many1 is_space_unit) (Then (word cs) Boundary)))) (pv, u @ r', None))"
  shows "(pv', [], c') \<in> set (matcher (Then Boundary (Then (word hs)
            (Then (Many1 is_space_unit) (Then (word cs) Boundary)))) (None, u, None))"
proof -
  from mem obtain h ws t where "u @ r' = h @ ws @ t @ r'"
    and rest: "map to_upper_unit h = map to_upper_unit (str hs)"
      "ws \<noteq> []" "list_all is_space_unit ws" "map to_upper_unit t = map to_upper_unit (str cs)"
      "pv' = Some (last t)" "c' = None"
    unfolding in_matcher_word_word [OF hs cs] by blast
  then have "u = h @ ws @ t @ []" by simp
  with rest show ?thesis
    unfolding in_matcher_word_word [OF hs cs]
    by (intro exI [of _ h] exI [of _ ws] exI [of _ t]) (simp add: word_before_def word_after_def)
qed

lemma word_class_isolated:
  assumes hs: "hs \<noteq> []" "list_all is_letter_unit (str hs)"
    and mem: "(pv', r', c') \<in> set (matcher (Then Boundary (Then (word hs)
            (Then (Many1 is_space_unit) (Capture (Class P))))) (pv, u @ r', None))"
  shows "(pv', [], c') \<in> set (matcher (Then Boundary (Then (word hs)
            (Then (Many1 is_space_unit) (Capture (Class P))))) (None, u, None))"
proof -
  from mem obtain h ws c where "u @ r' = h @ ws @ c # r'"
    and rest: "map to_upper_unit h = map to_upper_unit (str hs)"
      "ws \<noteq> []" "list_all is_space_unit ws" "P c" "pv' = Some c" "c' = Some [c]"
    unfolding in_matcher_word_class [OF hs] by blast
  then have "u = h @ ws @ c # []" by simp
  with rest show ?thesis
    unfolding in_matcher_word_class [OF hs]
    by (intro exI [of _ h] exI [of _ ws] exI [of _ c]) (simp add: word_before_def)
qed

lemma letters_no_space: "list_all is_letter_unit h \<Longrightarrow> filter is_space_unit h = []"
  by (induction h) (auto simp: unit_defs)

lemma spaces_filter: "ws \<noteq> [] \<Longrightarrow> list_all is_space_unit ws \<Longrightarrow> filter is_space_unit ws \<noteq> []"
  by (cases ws) auto

text \<open>
  Rules 1, 2 and 4: the template is \<^verbatim>\<open>$1\<close>, a space and a word. The replacement differs
  from the matched text where the word of the template and the word of the pattern
  differ, or where the white-space run goes on; it has one white-space unit, the space.
\<close>

lemma group_word_facts:
  assumes css: "css \<noteq> []" "[] \<notin> set css" "\<forall>k \<in> set css. list_all is_letter_unit (str k)"
    and cs: "cs \<noteq> []" "list_all is_letter_unit (str cs)"
    and mem: "(pv', r', c') \<in> set (matcher (Then Boundary (Then (Capture (alternatives css))
            (Then (Many1 is_space_unit) (Then (word cs) Boundary)))) (pv, u @ r', None))"
    and g: "group1 m = c'"
    and i: "i < length (str cs)" "i < length lit"
      "to_upper_unit (lit ! i) \<noteq> to_upper_unit (str cs ! i)"
    and lit: "filter is_space_unit lit = []"
  shows "u @ X \<noteq> expand [Group1, Lit (32 # lit)] m @ Y"
    and "filter is_space_unit (expand [Group1, Lit (32 # lit)] m) = [32]"
    and "filter is_space_unit u \<noteq> []"
proof -
  from mem obtain h ws t where "u @ r' = h @ ws @ t @ r'"
    and hk: "\<exists>k \<in> set css. map to_upper_unit h = map to_upper_unit (str k)"
    and ws: "ws \<noteq> []" "list_all is_space_unit ws"
    and t: "map to_upper_unit t = map to_upper_unit (str cs)"
    and c': "c' = Some h"
    unfolding in_matcher_group_word [OF css cs] by blast
  then have u: "u = h @ ws @ t" by simp
  from hk css obtain k where k: "map to_upper_unit h = map to_upper_unit (str k)"
    "str k \<noteq> []" "list_all is_letter_unit (str k)"
    by (metis str_letters_nonempty)
  from ci_word [OF k] have hl: "list_all is_letter_unit h" by simp
  from i(2) lit have ns: "\<not> is_space_unit (hd lit)"
    by (cases lit) (auto split: if_splits)
  have e: "expand [Group1, Lit (32 # lit)] m = h @ 32 # lit"
    using g c' by simp
  from tail_mismatch [OF ws t i ns] show "u @ X \<noteq> expand [Group1, Lit (32 # lit)] m @ Y"
    unfolding e u by simp
  show "filter is_space_unit (expand [Group1, Lit (32 # lit)] m) = [32]"
    unfolding e using letters_no_space [OF hl] lit by (simp add: is_space_unit_def)
  show "filter is_space_unit u \<noteq> []"
    unfolding u using spaces_filter [OF ws] by simp
qed

lemma rule1_iso:
  "(pv', r', c') \<in> set (matcher (pattern rule1) (pv, u @ r', None)) \<Longrightarrow>
   (pv', [], c') \<in> set (matcher (pattern rule1) (None, u, None))"
  unfolding rule1_def rule.simps
  by (erule group_word_isolated [rotated -1]) (simp_all add: str_def unit_defs)

lemma rule1_facts:
  assumes "(pv', r', c') \<in> set (matcher (pattern rule1) (pv, u @ r', None))" "group1 m = c'"
  shows "u @ X \<noteq> expand (replacement rule1) m @ Y"
    and "filter is_space_unit (expand (replacement rule1) m) = [32]"
    and "filter is_space_unit u \<noteq> []"
proof -
  have l: "str '' am/is'' = 32 # str ''am/is''" by (simp add: str_def)
  note f = group_word_facts [where i = 1 and lit = "str ''am/is''" and cs = "''are''"
      and css = "[''I'', ''he'', ''she'', ''it'']" and m = m and c' = c' and pv' = pv' and r' = r'
      and pv = pv and u = u]
  have mem: "(pv', r', c') \<in> set (matcher (Then Boundary (Then (Capture (alternatives [''I'', ''he'', ''she'', ''it'']))
            (Then (Many1 is_space_unit) (Then (word ''are'') Boundary)))) (pv, u @ r', None))"
    using assms(1) unfolding rule1_def rule.simps .
  show "u @ X \<noteq> expand (replacement rule1) m @ Y"
    unfolding rule1_def rule.simps l
    by (rule f(1) [OF _ _ _ _ _ mem assms(2)]) (simp_all add: str_def unit_defs)
  show "filter is_space_unit (expand (replacement rule1) m) = [32]"
    unfolding rule1_def rule.simps l
    by (rule f(2) [OF _ _ _ _ _ mem assms(2)]) (simp_all add: str_def unit_defs)
  show "filter is_space_unit u \<noteq> []"
    by (rule f(3) [OF _ _ _ _ _ mem assms(2)]) (simp_all add: str_def unit_defs)
qed

lemma rule2_iso:
  "(pv', r', c') \<in> set (matcher (pattern rule2) (pv, u @ r', None)) \<Longrightarrow>
   (pv', [], c') \<in> set (matcher (pattern rule2) (None, u, None))"
  unfolding rule2_def rule.simps
  by (erule group_word_isolated [rotated -1]) (simp_all add: str_def unit_defs)

lemma rule2_facts:
  assumes "(pv', r', c') \<in> set (matcher (pattern rule2) (pv, u @ r', None))" "group1 m = c'"
  shows "u @ X \<noteq> expand (replacement rule2) m @ Y"
    and "filter is_space_unit (expand (replacement rule2) m) = [32]"
    and "filter is_space_unit u \<noteq> []"
proof -
  have l: "str '' are'' = 32 # str ''are''" by (simp add: str_def)
  note f = group_word_facts [where i = 0 and lit = "str ''are''" and cs = "''is''"
      and css = "[''I'', ''you'', ''we'', ''they'']" and m = m and c' = c' and pv' = pv'
      and r' = r' and pv = pv and u = u]
  have mem: "(pv', r', c') \<in> set (matcher (Then Boundary (Then (Capture (alternatives [''I'', ''you'', ''we'', ''they'']))
            (Then (Many1 is_space_unit) (Then (word ''is'') Boundary)))) (pv, u @ r', None))"
    using assms(1) unfolding rule2_def rule.simps .
  show "u @ X \<noteq> expand (replacement rule2) m @ Y"
    unfolding rule2_def rule.simps l
    by (rule f(1) [OF _ _ _ _ _ mem assms(2)]) (simp_all add: str_def unit_defs)
  show "filter is_space_unit (expand (replacement rule2) m) = [32]"
    unfolding rule2_def rule.simps l
    by (rule f(2) [OF _ _ _ _ _ mem assms(2)]) (simp_all add: str_def unit_defs)
  show "filter is_space_unit u \<noteq> []"
    by (rule f(3) [OF _ _ _ _ _ mem assms(2)]) (simp_all add: str_def unit_defs)
qed

lemma rule4_iso:
  "(pv', r', c') \<in> set (matcher (pattern rule4) (pv, u @ r', None)) \<Longrightarrow>
   (pv', [], c') \<in> set (matcher (pattern rule4) (None, u, None))"
  unfolding rule4_def rule.simps
  by (erule group_word_isolated [rotated -1]) (simp_all add: str_def unit_defs)

lemma rule4_facts:
  assumes "(pv', r', c') \<in> set (matcher (pattern rule4) (pv, u @ r', None))" "group1 m = c'"
  shows "u @ X \<noteq> expand (replacement rule4) m @ Y"
    and "filter is_space_unit (expand (replacement rule4) m) = [32]"
    and "filter is_space_unit u \<noteq> []"
proof -
  have l: "str '' has'' = 32 # str ''has''" by (simp add: str_def)
  note f = group_word_facts [where i = 2 and lit = "str ''has''" and cs = "''have''"
      and css = "[''he'', ''she'', ''it'']" and m = m and c' = c' and pv' = pv'
      and r' = r' and pv = pv and u = u]
  have mem: "(pv', r', c') \<in> set (matcher (Then Boundary (Then (Capture (alternatives [''he'', ''she'', ''it'']))
            (Then (Many1 is_space_unit) (Then (word ''have'') Boundary)))) (pv, u @ r', None))"
    using assms(1) unfolding rule4_def rule.simps .
  show "u @ X \<noteq> expand (replacement rule4) m @ Y"
    unfolding rule4_def rule.simps l
    by (rule f(1) [OF _ _ _ _ _ mem assms(2)]) (simp_all add: str_def unit_defs)
  show "filter is_space_unit (expand (replacement rule4) m) = [32]"
    unfolding rule4_def rule.simps l
    by (rule f(2) [OF _ _ _ _ _ mem assms(2)]) (simp_all add: str_def unit_defs)
  show "filter is_space_unit u \<noteq> []"
    by (rule f(3) [OF _ _ _ _ _ mem assms(2)]) (simp_all add: str_def unit_defs)
qed

lemma rule3_iso:
  "(pv', r', c') \<in> set (matcher (pattern rule3) (pv, u @ r', None)) \<Longrightarrow>
   (pv', [], c') \<in> set (matcher (pattern rule3) (None, u, None))"
  unfolding rule3_def rule.simps
  by (erule word_word_isolated [rotated -1]) (simp_all add: str_def unit_defs)

lemma rule3_facts:
  assumes "(pv', r', c') \<in> set (matcher (pattern rule3) (pv, u @ r', None))" "group1 m = c'"
  shows "u @ X \<noteq> expand (replacement rule3) m @ Y"
    and "filter is_space_unit (expand (replacement rule3) m) = [32]"
    and "filter is_space_unit u \<noteq> []"
proof -
  have hs: "''I'' \<noteq> []" "list_all is_letter_unit (str ''I'')"
    and cs: "''has'' \<noteq> []" "list_all is_letter_unit (str ''has'')"
    by (simp_all add: str_def unit_defs)
  from assms(1) obtain h ws t where "u @ r' = h @ ws @ t @ r'"
    and h: "map to_upper_unit h = map to_upper_unit (str ''I'')"
    and ws: "ws \<noteq> []" "list_all is_space_unit ws"
    and t: "map to_upper_unit t = map to_upper_unit (str ''has'')"
    unfolding rule3_def rule.simps in_matcher_word_word [OF hs cs] by blast
  then have u: "u = h @ ws @ t" by simp
  from h obtain a where a: "h = [a]" by (auto simp: str_def map_eq_Cons_conv)
  have e: "expand (replacement rule3) m = 73 # 32 # str ''have''"
    by (simp add: rule3_def str_def)
  have "ws @ t @ X \<noteq> 32 # str ''have'' @ Y"
    by (rule tail_mismatch [OF ws t, where i = 2]) (simp_all add: str_def unit_defs)
  then show "u @ X \<noteq> expand (replacement rule3) m @ Y"
    unfolding e u a by simp
  show "filter is_space_unit (expand (replacement rule3) m) = [32]"
    unfolding e by (simp add: str_def unit_defs)
  show "filter is_space_unit u \<noteq> []"
    unfolding u using spaces_filter [OF ws] by simp
qed

lemma vowel_letter: "vowel c \<Longrightarrow> \<not> is_space_unit c"
  by (auto simp: vowel_def str_def unit_defs split: if_splits)

lemma rule5_iso:
  "(pv', r', c') \<in> set (matcher (pattern rule5) (pv, u @ r', None)) \<Longrightarrow>
   (pv', [], c') \<in> set (matcher (pattern rule5) (None, u, None))"
  unfolding rule5_def rule.simps
  by (erule word_class_isolated [rotated -1]) (simp_all add: str_def unit_defs)

lemma rule5_facts:
  assumes "(pv', r', c') \<in> set (matcher (pattern rule5) (pv, u @ r', None))" "group1 m = c'"
  shows "u @ X \<noteq> expand (replacement rule5) m @ Y"
    and "filter is_space_unit (expand (replacement rule5) m) = [32]"
    and "filter is_space_unit u \<noteq> []"
proof -
  have hs: "''a'' \<noteq> []" "list_all is_letter_unit (str ''a'')"
    by (simp_all add: str_def unit_defs)
  from assms(1) obtain h ws c where "u @ r' = h @ ws @ c # r'"
    and h: "map to_upper_unit h = map to_upper_unit (str ''a'')"
    and ws: "ws \<noteq> []" "list_all is_space_unit ws"
    and c: "vowel c" "c' = Some [c]"
    unfolding rule5_def rule.simps in_matcher_word_class [OF hs] by blast
  then have u: "u = h @ ws @ [c]" by simp
  from h obtain a where a: "h = [a]" by (auto simp: str_def map_eq_Cons_conv)
  from ws obtain w ws' where w: "ws = w # ws'" "is_space_unit w" by (cases ws) auto
  have e: "expand (replacement rule5) m = [97, 110, 32, c]"
    using assms(2) c by (simp add: rule5_def str_def)
  from w(2) have "w \<noteq> 110" by (auto simp: is_space_unit_def)
  then show "u @ X \<noteq> expand (replacement rule5) m @ Y"
    unfolding e u a w by simp
  show "filter is_space_unit (expand (replacement rule5) m) = [32]"
    unfolding e using vowel_letter [OF c(1)] by (simp add: is_space_unit_def)
  show "filter is_space_unit u \<noteq> []"
    unfolding u using spaces_filter [OF ws] by simp
qed

lemma rule6_iso:
  "(pv', r', c') \<in> set (matcher (pattern rule6) (pv, u @ r', None)) \<Longrightarrow>
   (pv', [], c') \<in> set (matcher (pattern rule6) (None, u, None))"
  unfolding rule6_def rule.simps
  by (erule word_class_isolated [rotated -1]) (simp_all add: str_def unit_defs)

lemma rule6_facts:
  assumes "(pv', r', c') \<in> set (matcher (pattern rule6) (pv, u @ r', None))" "group1 m = c'"
  shows "u @ X \<noteq> expand (replacement rule6) m @ Y"
    and "(\<forall>g. c' = Some g \<longrightarrow> filter is_space_unit g = []) \<Longrightarrow>
         filter is_space_unit (expand (replacement rule6) m) = [32]"
    and "filter is_space_unit u \<noteq> []"
proof -
  have hs: "''an'' \<noteq> []" "list_all is_letter_unit (str ''an'')"
    by (simp_all add: str_def unit_defs)
  from assms(1) obtain h ws c where "u @ r' = h @ ws @ c # r'"
    and h: "map to_upper_unit h = map to_upper_unit (str ''an'')"
    and ws: "ws \<noteq> []" "list_all is_space_unit ws"
    and c: "c' = Some [c]"
    unfolding rule6_def rule.simps in_matcher_word_class [OF hs] by blast
  then have u: "u = h @ ws @ [c]" by simp
  from h obtain a n where a: "h = [a, n]" "to_upper_unit n = 78"
    by (auto simp: str_def map_eq_Cons_conv unit_defs)
  have e: "expand (replacement rule6) m = [97, 32, c]"
    using assms(2) c by (simp add: rule6_def str_def)
  from a(2) have "n \<noteq> 32" by (auto simp: unit_defs)
  then show "u @ X \<noteq> expand (replacement rule6) m @ Y"
    unfolding e u a by simp
  show "filter is_space_unit (expand (replacement rule6) m) = [32]"
    if "\<forall>g. c' = Some g \<longrightarrow> filter is_space_unit g = []"
    unfolding e using that c by (auto simp: is_space_unit_def split: if_splits)
  show "filter is_space_unit u \<noteq> []"
    unfolding u using spaces_filter [OF ws] by simp
qed

section \<open>The recorded changes\<close>

lemma grammar_rule_changes_text:
  assumes "rl \<in> set grammarRules" "exec_at (pattern rl) pv r = Some m"
  shows "replace (pattern rl) (replacement rl) (matched m) \<noteq> matched m"
proof -
  from assms(1) consider "rl = rule1" | "rl = rule2" | "rl = rule3" | "rl = rule4"
    | "rl = rule5" | "rl = rule6"
    by (auto simp: grammarRules_def)
  then show ?thesis
  proof cases
    case 1
    show ?thesis
      unfolding 1
    proof (rule replace_matched_differs)
      show "exec_at (pattern rule1) pv r = Some m" using assms(2) unfolding 1 .
    qed (erule rule1_iso, erule (1) rule1_facts(1))
  next
    case 2
    show ?thesis
      unfolding 2
    proof (rule replace_matched_differs)
      show "exec_at (pattern rule2) pv r = Some m" using assms(2) unfolding 2 .
    qed (erule rule2_iso, erule (1) rule2_facts(1))
  next
    case 3
    show ?thesis
      unfolding 3
    proof (rule replace_matched_differs)
      show "exec_at (pattern rule3) pv r = Some m" using assms(2) unfolding 3 .
    qed (erule rule3_iso, erule (1) rule3_facts(1))
  next
    case 4
    show ?thesis
      unfolding 4
    proof (rule replace_matched_differs)
      show "exec_at (pattern rule4) pv r = Some m" using assms(2) unfolding 4 .
    qed (erule rule4_iso, erule (1) rule4_facts(1))
  next
    case 5
    show ?thesis
      unfolding 5
    proof (rule replace_matched_differs)
      show "exec_at (pattern rule5) pv r = Some m" using assms(2) unfolding 5 .
    qed (erule rule5_iso, erule (1) rule5_facts(1))
  next
    case 6
    show ?thesis
      unfolding 6
    proof (rule replace_matched_differs)
      show "exec_at (pattern rule6) pv r = Some m" using assms(2) unfolding 6 .
    qed (erule rule6_iso, erule (1) rule6_facts(1))
  qed
qed

lemma rule_changes_differ:
  assumes "rl \<in> set grammarRules" "c \<in> set (rule_changes rl s)"
  shows "change_corrected c \<noteq> change_original c"
proof -
  from assms(2) obtain m where m: "m \<in> set (matchAll (pattern rl) s)"
    and c: "change_original c = matched m"
      "change_corrected c = replace (pattern rl) (replacement rl) (matched m)"
    by (auto simp: rule_changes_def)
  from m obtain pv r where "exec_at (pattern rl) pv r = Some m"
    unfolding matchAll_def by (blast dest: matchAll_from_exec)
  from grammar_rule_changes_text [OF assms(1) this] show ?thesis
    unfolding c .
qed

lemma apply_rules_changes_differ:
  assumes "set rs \<subseteq> set grammarRules"
    and "\<forall>c \<in> set chs. change_corrected c \<noteq> change_original c"
  shows "\<forall>c \<in> set (pass_changes (apply_rules rs s chs)). change_corrected c \<noteq> change_original c"
  using assms
proof (induction rs arbitrary: s chs)
  case Nil
  then show ?case by simp
next
  case (Cons rl rs)
  from Cons.prems(1) have rl: "rl \<in> set grammarRules" and rs: "set rs \<subseteq> set grammarRules"
    by simp_all
  from Cons.prems(2) rl
  have "\<forall>c \<in> set (chs @ rule_changes rl s). change_corrected c \<noteq> change_original c"
    by (auto dest: rule_changes_differ)
  from Cons.IH [OF rs this] show ?case by simp
qed

lemma correct_word_changes_differ:
  "correct_word w = Inr (w', cs) \<Longrightarrow> \<forall>c \<in> set cs. change_corrected c \<noteq> change_original c"
  by (auto simp: correct_word_def Let_def split: if_splits sum.splits)

lemma map_words_changes_differ:
  "map_words ws = Inr (ws', cs) \<Longrightarrow> \<forall>c \<in> set cs. change_corrected c \<noteq> change_original c"
proof (induction ws arbitrary: ws' cs)
  case Nil
  then show ?case by simp
next
  case (Cons w ws)
  from Cons.prems obtain w1 cs1 ws2 cs2 where 1: "correct_word w = Inr (w1, cs1)"
    and 2: "map_words ws = Inr (ws2, cs2)" and cs: "cs = cs1 @ cs2"
    by (auto split: sum.splits prod.splits)
  from correct_word_changes_differ [OF 1] Cons.IH [OF 2] show ?case
    unfolding cs by auto
qed

lemma spellCorrect_changes_differ:
  "spellCorrect s = Inr p \<Longrightarrow>
   \<forall>c \<in> set (pass_changes p). change_corrected c \<noteq> change_original c"
  by (auto simp: spellCorrect_def split: sum.splits prod.splits dest: map_words_changes_differ)

lemma grammarCorrect_changes_differ:
  "\<forall>c \<in> set (pass_changes (grammarCorrect s)). change_corrected c \<noteq> change_original c"
  unfolding grammarCorrect_def by (rule apply_rules_changes_differ) simp_all

text \<open>
  C6. No change is a no-op: in every result that \<^verbatim>\<open>correct\<close> returns, and in what the
  spelling pass and the grammar pass return by themselves, the corrected span of every
  change differs from its original span.
\<close>

theorem changes_are_not_noops:
  "(\<forall>r. correct v opts = Inr r \<longrightarrow>
      (\<forall>c \<in> set (result_changes r). change_corrected c \<noteq> change_original c))
   \<and> (\<forall>p. spellCorrect s = Inr p \<longrightarrow>
      (\<forall>c \<in> set (pass_changes p). change_corrected c \<noteq> change_original c))
   \<and> (\<forall>c \<in> set (pass_changes (grammarCorrect s)). change_corrected c \<noteq> change_original c)"
proof (intro conjI allI impI)
  fix r
  assume ret: "correct v opts = Inr r"
  show "\<forall>c \<in> set (result_changes r). change_corrected c \<noteq> change_original c"
  proof (cases "\<not> truthy v \<or> \<not> is_string v")
    case True
    with ret show ?thesis by (auto simp: correct_def invalid_result_def)
  next
    case False
    then obtain t where "v = JString t" by (cases v) auto
    with False ret have cs: "correct_string t opts = Inr r" by (simp add: correct_def)
    show ?thesis
    proof (cases "spellCheck opts")
      case True
      with cs obtain p where p: "spellCorrect (trim t) = Inr p"
        and r: "result_changes r = (if grammarCheck opts
            then pass_changes p @ pass_changes (grammarCorrect (pass_text p))
            else pass_changes p)"
        by (auto simp: correct_string_def Let_def split: sum.splits if_splits)
      from spellCorrect_changes_differ [OF p] grammarCorrect_changes_differ [of "pass_text p"]
      show ?thesis unfolding r by auto
    next
      case False
      with cs have r: "result_changes r = (if grammarCheck opts
            then pass_changes (grammarCorrect (trim t)) else [])"
        by (auto simp: correct_string_def Let_def split: if_splits)
      from grammarCorrect_changes_differ [of "trim t"]
      show ?thesis unfolding r by auto
    qed
  qed
next
  fix p
  assume "spellCorrect s = Inr p"
  then show "\<forall>c \<in> set (pass_changes p). change_corrected c \<noteq> change_original c"
    by (rule spellCorrect_changes_differ)
next
  show "\<forall>c \<in> set (pass_changes (grammarCorrect s)). change_corrected c \<noteq> change_original c"
    by (rule grammarCorrect_changes_differ)
qed

theorem changes_are_not_noops_witness:
  "correct (JString (str ''teh I  has'')) default_options
   = Inr \<lparr>original = JString (str ''teh I  has''),
          spellCorrected = JString (str ''the I  has''),
          corrected = JString (str ''the I have''),
          result_changes =
            [\<lparr>change_type = Spelling, change_original = str ''teh'',
              change_corrected = str ''the'',
              change_message = spelling_message (str ''teh'') (str ''the'')\<rparr>,
             \<lparr>change_type = Grammar, change_original = str ''I  has'',
              change_corrected = str ''I have'',
              change_message = str ''Incorrect verb form''\<rparr>]\<rparr>
   \<and> str ''the'' \<noteq> str ''teh'' \<and> str ''I have'' \<noteq> str ''I  has''"
proof -
  have ne: "str ''teh I  has'' \<noteq> []"
    and t: "trim (str ''teh I  has'') = str ''teh I  has''"
    by (simp_all add: string_defs unit_defs)
  have s: "spellCorrect (str ''teh I  has'')
      = Inr \<lparr>pass_text = str ''the I  has'',
             pass_changes = [\<lparr>change_type = Spelling, change_original = str ''teh'',
               change_corrected = str ''the'',
               change_message = spelling_message (str ''teh'') (str ''the'')\<rparr>]\<rparr>"
    by (simp add: spell_defs string_defs unit_defs)
  have g: "grammarCorrect (str ''the I  has'')
      = \<lparr>pass_text = str ''the I have'',
         pass_changes = [\<lparr>change_type = Grammar, change_original = str ''I  has'',
           change_corrected = str ''I have'',
           change_message = str ''Incorrect verb form''\<rparr>]\<rparr>"
    by (simp add: grammar_defs regex_defs string_defs unit_defs)
  have e: "correct (JString (str ''teh I  has'')) default_options
   = Inr \<lparr>original = JString (str ''teh I  has''),
          spellCorrected = JString (str ''the I  has''),
          corrected = JString (str ''the I have''),
          result_changes =
            [\<lparr>change_type = Spelling, change_original = str ''teh'',
              change_corrected = str ''the'',
              change_message = spelling_message (str ''teh'') (str ''the'')\<rparr>,
             \<lparr>change_type = Grammar, change_original = str ''I  has'',
              change_corrected = str ''I have'',
              change_message = str ''Incorrect verb form''\<rparr>]\<rparr>"
    by (simp add: correct_def correct_string_def default_options_def ne t s g)
  from changes_are_not_noops [of "JString (str ''teh I  has'')" default_options "[]"] e
  show ?thesis by simp
qed

section \<open>White space in the grammar pass\<close>





section \<open>Idempotence of the spelling pass\<close>

lemma replacements_ok:
  "list_all (\<lambda>w'. w' \<noteq> [] \<and> is_word_unit (hd w') \<and> is_word_unit (last w')
      \<and> list_all miss (split_word_boundary w')) all_replacements"
  by (simp add: all_replacements_def case_forms_def miss_def spellingCorrections_def
      object_prototype_def get_property_def string_defs unit_defs)
lemma split_word_boundary_hd:
  "split_word_boundary (d # s) = t # ts \<Longrightarrow> \<exists>t'. t = d # t'"
  by (cases s) (auto split: if_splits list.splits)

lemma split_word_boundary_uniform:
  "w \<in> set (split_word_boundary s) \<Longrightarrow> uniform w"
proof (induction s arbitrary: w rule: split_word_boundary.induct)
  case 1
  then show ?case by (simp add: uniform_def)
next
  case (2 c)
  then show ?case by (simp add: uniform_def)
next
  case (3 c d s)
  obtain t ts where tts: "split_word_boundary (d # s) = t # ts"
    using split_word_boundary_nonempty [of "d # s"] by (cases "split_word_boundary (d # s)") auto
  then obtain t' where t: "t = d # t'" by (blast dest: split_word_boundary_hd)
  have IH: "w \<in> set (split_word_boundary (d # s)) \<Longrightarrow> uniform w" for w
    using "3.IH" by blast
  show ?case
  proof (cases "is_word_unit c \<noteq> is_word_unit d")
    case True
    with "3.prems" have "w = [c] \<or> w \<in> set (split_word_boundary (d # s))" by simp
    with IH show ?thesis by (auto simp: uniform_def)
  next
    case False
    with "3.prems" tts have "w = c # t \<or> w \<in> set ts" by simp
    moreover have "uniform t" using IH [of t] tts by simp
    then have "uniform (c # t)" using False t by (auto simp: uniform_def)
    moreover have "w \<in> set ts \<Longrightarrow> uniform w" using IH [of w] tts by simp
    ultimately show ?thesis by blast
  qed
qed

lemma split_word_boundary_token_list:
  "s \<noteq> [] \<Longrightarrow> token_list (split_word_boundary s)"
proof (induction s rule: split_word_boundary.induct)
  case 1
  then show ?case by simp
next
  case (2 c)
  then show ?case by simp
next
  case (3 c d s)
  obtain t ts where tts: "split_word_boundary (d # s) = t # ts"
    using split_word_boundary_nonempty [of "d # s"] by (cases "split_word_boundary (d # s)") auto
  then obtain t' where t: "t = d # t'" by (blast dest: split_word_boundary_hd)
  from "3.IH" tts have tl: "token_list (t # ts)" by (cases "is_word_unit c \<noteq> is_word_unit d") simp_all
  show ?case
  proof (cases "is_word_unit c \<noteq> is_word_unit d")
    case True
    with tl tts t show ?thesis by simp
  next
    case False
    with tl tts t show ?thesis by (cases ts) simp_all
  qed
qed

lemma uniform_split_word_boundary:
  "uniform w \<Longrightarrow> split_word_boundary w = [w]"
proof (induction w rule: split_word_boundary.induct)
  case 1
  then show ?case by simp
next
  case (2 c)
  then show ?case by simp
next
  case (3 c d s)
  from "3.prems" have same: "is_word_unit c = is_word_unit d" and u: "uniform (d # s)"
    by (auto simp: uniform_def)
  from "3.IH"(2) same u have "split_word_boundary (d # s) = [d # s]" by simp
  with same show ?case by simp
qed

lemma split_word_boundary_append:
  "a \<noteq> [] \<Longrightarrow> b \<noteq> [] \<Longrightarrow> is_word_unit (last a) \<noteq> is_word_unit (hd b) \<Longrightarrow>
   split_word_boundary (a @ b) = split_word_boundary a @ split_word_boundary b"
proof (induction a rule: split_word_boundary.induct)
  case 1
  then show ?case by simp
next
  case (2 c)
  then obtain d b' where "b = d # b'" by (cases b) auto
  with 2 show ?case by simp
next
  case (3 c d s)
  from "3.prems" have l: "is_word_unit (last (d # s)) \<noteq> is_word_unit (hd b)" by simp
  have IH: "split_word_boundary ((d # s) @ b)
      = split_word_boundary (d # s) @ split_word_boundary b"
  proof (cases "is_word_unit c \<noteq> is_word_unit d")
    case True
    from "3.IH"(1) [OF True _ "3.prems"(2) l] show ?thesis by simp
  next
    case False
    from "3.IH"(2) [OF False _ "3.prems"(2) l] show ?thesis by simp
  qed
  obtain t ts where tts: "split_word_boundary (d # s) = t # ts"
    using split_word_boundary_nonempty [of "d # s"] by (cases "split_word_boundary (d # s)") auto
  from IH tts show ?case by simp
qed

lemma token_list_hd: "token_list (b # ws) \<Longrightarrow> b \<noteq> []"
  by (cases ws) simp_all

lemma split_word_boundary_concat:
  "token_list ws \<Longrightarrow> ws \<noteq> [] \<Longrightarrow>
   split_word_boundary (concat ws) = concat (map split_word_boundary ws)"
proof (induction ws rule: token_list.induct)
  case 1
  then show ?case by simp
next
  case (2 a)
  then show ?case by simp
next
  case (3 a b ws)
  from "3.prems" have a: "a \<noteq> []" and j: "is_word_unit (last a) \<noteq> is_word_unit (hd b)"
    and tl: "token_list (b # ws)"
    by simp_all
  from tl have b: "b \<noteq> []" by (rule token_list_hd)
  then have ne: "concat (b # ws) \<noteq> []" and h: "hd (concat (b # ws)) = hd b"
    by simp_all
  from j h have j': "is_word_unit (last a) \<noteq> is_word_unit (hd (concat (b # ws)))" by simp
  have "split_word_boundary (concat (a # b # ws))
      = split_word_boundary (a @ concat (b # ws))" by simp
  also have "\<dots> = split_word_boundary a @ split_word_boundary (concat (b # ws))"
    using a ne j' by (rule split_word_boundary_append)
  also have "\<dots> = split_word_boundary a @ concat (map split_word_boundary (b # ws))"
    using "3.IH" [OF tl] by simp
  finally show ?case by simp
qed

lemma token_list_related:
  assumes "token_list ws"
    and "list_all2 (\<lambda>w w'. w' \<noteq> [] \<and> is_word_unit (hd w') = is_word_unit (hd w)
           \<and> is_word_unit (last w') = is_word_unit (last w)) ws ws'"
  shows "token_list ws'"
  using assms
proof (induction ws arbitrary: ws' rule: token_list.induct)
  case 1
  then show ?case by simp
next
  case (2 a)
  then show ?case by (auto simp: list_all2_Cons1)
next
  case (3 a b ws)
  from "3.prems"(2) obtain a' b' ws'' where ws': "ws' = a' # b' # ws''"
    and a': "a' \<noteq> []" "is_word_unit (last a') = is_word_unit (last a)"
    and b': "is_word_unit (hd b') = is_word_unit (hd b)"
    and rest: "list_all2 (\<lambda>w w'. w' \<noteq> [] \<and> is_word_unit (hd w') = is_word_unit (hd w)
           \<and> is_word_unit (last w') = is_word_unit (last w)) (b # ws) (b' # ws'')"
    by (auto simp: list_all2_Cons1)
  from "3.prems"(1) have "token_list (b # ws)" by simp
  from "3.IH" [OF this rest] have "token_list (b' # ws'')" .
  with "3.prems"(1) a' b' show ?case unfolding ws' by simp
qed

lemma preserveCase_object: "preserveCase w (JObject l) = Inl TypeError"
  by (simp add: preserveCase_def split: list.splits)

lemma preserveCase_forms:
  "preserveCase w (JString v) = Inr w' \<Longrightarrow> w' \<in> set (case_forms v)"
  by (auto simp: preserveCase_def case_forms_def split: if_splits list.splits)

lemma object_prototype_values:
  "map_of object_prototype k = Some v \<Longrightarrow> \<exists>l. v = JObject l"
  by (auto simp: object_prototype_def split: if_splits)

lemma case_forms_in_replacements:
  "map_of spellingCorrections k = Some v \<Longrightarrow> set (case_forms v) \<subseteq> set all_replacements"
  by (force simp: all_replacements_def dest!: map_of_SomeD)

lemma correct_word_cases:
  assumes "correct_word w = Inr (w', cs)"
  shows "(w' = w \<and> miss w) \<or> (list_all is_word_unit w \<and> w \<noteq> [] \<and> w' \<in> set all_replacements)"
proof (cases "miss w")
  case True
  with assms show ?thesis by (simp add: correct_word_def miss_def)
next
  case False
  then have hit: "truthy (get_property spellingCorrections (toLowerCase w))"
    by (simp add: miss_def)
  then have word: "list_all is_word_unit w" by (rule hit_is_word)
  have ne: "w \<noteq> []"
  proof
    assume "w = []"
    with hit show False
      by (simp add: toLowerCase_def get_property_def spellingCorrections_def
          object_prototype_def str_def)
  qed
  from assms hit have pc: "preserveCase w (get_property spellingCorrections (toLowerCase w)) = Inr w'"
    by (auto simp: correct_word_def Let_def split: sum.splits)
  have "w' \<in> set all_replacements"
  proof (cases "map_of spellingCorrections (toLowerCase w)")
    case (Some v)
    with pc have "preserveCase w (JString v) = Inr w'" by (simp add: get_property_def)
    then have "w' \<in> set (case_forms v)" by (rule preserveCase_forms)
    with case_forms_in_replacements [OF Some] show ?thesis by blast
  next
    case None
    with hit obtain v where v: "map_of object_prototype (toLowerCase w) = Some v"
      by (auto simp: get_property_def split: option.splits)
    then obtain l where "v = JObject l" by (blast dest: object_prototype_values)
    with pc None v show ?thesis by (simp add: get_property_def preserveCase_object)
  qed
  with word ne show ?thesis by blast
qed

lemma dictionary_values_nonempty:
  "map_of spellingCorrections k = Some v \<Longrightarrow> v \<noteq> []"
  by (auto simp: spellingCorrections_def str_def split: if_splits)

lemma map_words_pieces:
  "map_words ws = Inr (ws', cs) \<Longrightarrow>
   list_all2 (\<lambda>w w'. \<exists>c. correct_word w = Inr (w', c)) ws ws'"
proof (induction ws arbitrary: ws' cs)
  case Nil
  then show ?case by simp
next
  case (Cons w ws)
  from Cons.prems obtain w1 cs1 ws2 cs2 where 1: "correct_word w = Inr (w1, cs1)"
    and 2: "map_words ws = Inr (ws2, cs2)" and ws': "ws' = w1 # ws2"
    by (auto split: sum.splits prod.splits)
  from Cons.IH [OF 2] 1 show ?case unfolding ws' by auto
qed

lemma map_words_all_miss:
  "list_all miss ws \<Longrightarrow> map_words ws = Inr (ws, [])"
  by (induction ws) (simp_all add: correct_word_def miss_def)

lemma spellCorrect_all_miss:
  assumes "list_all miss (split_word_boundary s)"
  shows "spellCorrect s = Inr \<lparr>pass_text = s, pass_changes = []\<rparr>"
  using map_words_all_miss [OF assms]
  by (simp add: spellCorrect_def concat_split_word_boundary)

lemma spellCorrect_output_misses:
  assumes "spellCorrect t = Inr r"
  shows "list_all miss (split_word_boundary (pass_text r))"
proof -
  let ?ws = "split_word_boundary t"
  from assms obtain ws' cs where m: "map_words ?ws = Inr (ws', cs)"
    and r: "pass_text r = concat ws'"
    by (auto simp: spellCorrect_def split: sum.splits prod.splits)
  from map_words_pieces [OF m]
  have pieces: "list_all2 (\<lambda>w w'. \<exists>c. correct_word w = Inr (w', c)) ?ws ws'" .
  have rep: "w' \<in> set all_replacements \<Longrightarrow> w' \<noteq> [] \<and> is_word_unit (hd w')
      \<and> is_word_unit (last w') \<and> list_all miss (split_word_boundary w')" for w'
    using replacements_ok by (simp add: list_all_iff)
  have piece_misses: "list_all miss (split_word_boundary w')" if "w' \<in> set ws'" for w'
  proof -
    from that obtain i where i: "i < length ws'" "ws' ! i = w'"
      by (auto simp: in_set_conv_nth)
    from pieces have len: "length ?ws = length ws'" by (rule list_all2_lengthD)
    from list_all2_nthD2 [OF pieces i(1)] i(2)
    obtain c where "correct_word (?ws ! i) = Inr (w', c)" by auto
    moreover from i(1) len have "?ws ! i \<in> set ?ws" by simp
    ultimately obtain w where w: "w \<in> set ?ws" "correct_word w = Inr (w', c)" by blast
    from correct_word_cases [OF w(2)] show ?thesis
    proof
      assume "w' = w \<and> miss w"
      moreover from w(1) have "uniform w" by (rule split_word_boundary_uniform)
      ultimately show ?thesis by (simp add: uniform_split_word_boundary)
    next
      assume "list_all is_word_unit w \<and> w \<noteq> [] \<and> w' \<in> set all_replacements"
      with rep show ?thesis by blast
    qed
  qed
  show ?thesis
  proof (cases "t = []")
    case True
    with m have "ws' = [[]]"
      by (auto simp: correct_word_def Let_def toLowerCase_def get_property_def
          spellingCorrections_def object_prototype_def str_def split: sum.splits if_splits)
    with r piece_misses [of "[]"] show ?thesis by simp
  next
    case False
    then have tl: "token_list ?ws" by (rule split_word_boundary_token_list)
    have rel: "list_all2 (\<lambda>w w'. w' \<noteq> [] \<and> is_word_unit (hd w') = is_word_unit (hd w)
           \<and> is_word_unit (last w') = is_word_unit (last w)) ?ws ws'"
    proof (rule list_all2_all_nthI)
      show "length ?ws = length ws'" using pieces by (rule list_all2_lengthD)
    next
      fix n assume n: "n < length ?ws"
      let ?w = "?ws ! n" and ?w' = "ws' ! n"
      from pieces n obtain c where cw: "correct_word ?w = Inr (?w', c)"
        by (auto simp: list_all2_conv_all_nth)
      have wne: "?w \<noteq> []"
      proof -
        have "\<forall>w \<in> set ws. w \<noteq> []" if "token_list ws" for ws
          using that by (induction ws rule: token_list.induct) auto
        with tl n show ?thesis by (metis nth_mem)
      qed
      from correct_word_cases [OF cw]
      show "?w' \<noteq> [] \<and> is_word_unit (hd ?w') = is_word_unit (hd ?w)
           \<and> is_word_unit (last ?w') = is_word_unit (last ?w)"
      proof
        assume "?w' = ?w \<and> miss ?w"
        with wne show ?thesis by simp
      next
        assume a: "list_all is_word_unit ?w \<and> ?w \<noteq> [] \<and> ?w' \<in> set all_replacements"
        then have "is_word_unit (hd ?w)" "is_word_unit (last ?w)"
          by (simp_all add: list_all_iff)
        with a rep [of ?w'] show ?thesis by simp
      qed
    qed
    from token_list_related [OF tl rel] have tl': "token_list ws'" .
    from pieces have "length ?ws = length ws'" by (rule list_all2_lengthD)
    with split_word_boundary_nonempty [of t] have ne: "ws' \<noteq> []" by auto
    from split_word_boundary_concat [OF tl' ne]
    have "split_word_boundary (pass_text r) = concat (map split_word_boundary ws')"
      unfolding r .
    with piece_misses show ?thesis by (simp add: list_all_iff)
  qed
qed

text \<open>
  C5. The spelling pass is idempotent: whenever \<^verbatim>\<open>spellCorrect\<close> returns a text, running
  it on that text returns the same text and no change. The reason is the one the
  specification gives: for every value of the dictionary, in each of the three forms
  \<^verbatim>\<open>preserveCase\<close> can give it, no token has a lowercase form that is a key.
\<close>

theorem spellCorrect_idempotent:
  "(\<forall>r. spellCorrect t = Inr r \<longrightarrow>
      spellCorrect (pass_text r) = Inr \<lparr>pass_text = pass_text r, pass_changes = []\<rparr>)
   \<and> list_all (\<lambda>(k, v). list_all (\<lambda>w'. list_all
          (\<lambda>x. map_of spellingCorrections (toLowerCase x) = None)
          (split_word_boundary w')) (case_forms v)) spellingCorrections"
proof (intro conjI allI impI)
  fix r
  assume "spellCorrect t = Inr r"
  then have "list_all miss (split_word_boundary (pass_text r))"
    by (rule spellCorrect_output_misses)
  then show "spellCorrect (pass_text r) = Inr \<lparr>pass_text = pass_text r, pass_changes = []\<rparr>"
    by (rule spellCorrect_all_miss)
next
  have key: "miss x \<Longrightarrow> map_of spellingCorrections (toLowerCase x) = None" for x
    by (auto simp: miss_def get_property_def split: option.splits
        dest: dictionary_values_nonempty)
  have "\<forall>w' \<in> set all_replacements. \<forall>x \<in> set (split_word_boundary w').
      map_of spellingCorrections (toLowerCase x) = None"
    using replacements_ok key by (simp add: list_all_iff)
  then show "list_all (\<lambda>(k, v). list_all (\<lambda>w'. list_all
          (\<lambda>x. map_of spellingCorrections (toLowerCase x) = None)
          (split_word_boundary w')) (case_forms v)) spellingCorrections"
    unfolding all_replacements_def list_all_iff by fastforce
qed

theorem spellCorrect_idempotent_witness:
  "spellCorrect (str ''Teh dreamm, YOURE over'')
   = Inr \<lparr>pass_text = str ''The dream, YOU'' @ [39] @ str ''RE over'',
          pass_changes =
            [\<lparr>change_type = Spelling, change_original = str ''Teh'',
              change_corrected = str ''The'',
              change_message = spelling_message (str ''Teh'') (str ''The'')\<rparr>,
             \<lparr>change_type = Spelling, change_original = str ''dreamm'',
              change_corrected = str ''dream'',
              change_message = spelling_message (str ''dreamm'') (str ''dream'')\<rparr>,
             \<lparr>change_type = Spelling, change_original = str ''YOURE'',
              change_corrected = str ''YOU'' @ [39] @ str ''RE'',
              change_message = spelling_message (str ''YOURE'') (str ''YOU'' @ [39] @ str ''RE'')\<rparr>]\<rparr>
   \<and> spellCorrect (str ''The dream, YOU'' @ [39] @ str ''RE over'')
   = Inr \<lparr>pass_text = str ''The dream, YOU'' @ [39] @ str ''RE over'', pass_changes = []\<rparr>"
proof -
  have e: "spellCorrect (str ''Teh dreamm, YOURE over'')
   = Inr \<lparr>pass_text = str ''The dream, YOU'' @ [39] @ str ''RE over'',
          pass_changes =
            [\<lparr>change_type = Spelling, change_original = str ''Teh'',
              change_corrected = str ''The'',
              change_message = spelling_message (str ''Teh'') (str ''The'')\<rparr>,
             \<lparr>change_type = Spelling, change_original = str ''dreamm'',
              change_corrected = str ''dream'',
              change_message = spelling_message (str ''dreamm'') (str ''dream'')\<rparr>,
             \<lparr>change_type = Spelling, change_original = str ''YOURE'',
              change_corrected = str ''YOU'' @ [39] @ str ''RE'',
              change_message = spelling_message (str ''YOURE'') (str ''YOU'' @ [39] @ str ''RE'')\<rparr>]\<rparr>"
    by (simp add: spell_defs string_defs unit_defs)
  from spellCorrect_idempotent [of "str ''Teh dreamm, YOURE over''"] e
  show ?thesis by simp
qed

end
